theory Spec2Isabelle
  imports Complex_Main "HOL-Library.AList"
begin

text \<open>
  The job store, the generate route and its dispatcher of a small image-generation
  service, embedded as functions on explicit state. The store and the handler are
  functions of their inputs; the asynchronous dispatcher is a step function over the jobs
  of the event loop, and its properties are proved for every sequence of such steps.
\<close>

section \<open>Types (lib/types.ts)\<close>

datatype JobStatus = Pending | Generating | Complete | Error

datatype GenerationMode = Edit | Reference

text \<open>
  A TypeScript \<^verbatim>\<open>number\<close> as far as the handlers use it: a rational value or \<^verbatim>\<open>NaN\<close>.
  A field that is absent from the JSON body reads as \<^verbatim>\<open>undefined\<close>, which every
  comparison coerces to \<^verbatim>\<open>NaN\<close>; the model identifies the two. Infinities are left out.
\<close>

datatype number = Num rat | NaN

text \<open>The operators \<^verbatim>\<open><\<close> and \<^verbatim>\<open>></\<close> on numbers: any comparison with \<^verbatim>\<open>NaN\<close> is false.\<close>

fun num_less :: "number \<Rightarrow> number \<Rightarrow> bool" where
  "num_less (Num a) (Num b) = (a < b)"
| "num_less _ _ = False"

definition num_greater :: "number \<Rightarrow> number \<Rightarrow> bool" where
  "num_greater a b = num_less b a"

text \<open>Timestamps are the integer milliseconds of \<^verbatim>\<open>Date.now()\<close>.\<close>

record Job =
  job_id :: string
  status :: JobStatus
  imageUrl :: "string option"
  error :: "string option"
  createdAt :: int

record Batch =
  batch_id :: string
  jobIds :: "string list"
  concurrency :: number
  batch_createdAt :: int

text \<open>
  \<^verbatim>\<open>Partial<Job>\<close>: every property may be absent (\<open>None\<close>). For the two optional
  properties of \<^verbatim>\<open>Job\<close> a present property may itself hold \<^verbatim>\<open>undefined\<close>
  (\<open>Some None\<close>), which the object spread copies like any other value.
\<close>

record JobUpdate =
  u_id :: "string option"
  u_status :: "JobStatus option"
  u_imageUrl :: "string option option"
  u_error :: "string option option"
  u_createdAt :: "int option"

definition no_update :: JobUpdate where
  "no_update = \<lparr>u_id = None, u_status = None, u_imageUrl = None, u_error = None,
     u_createdAt = None\<rparr>"

section \<open>Job store (lib/jobManager.ts)\<close>

text \<open>
  The two \<^verbatim>\<open>Map\<close>s of the class are association lists in insertion order:
  \<^verbatim>\<open>get\<close> is \<open>map_of\<close>, \<^verbatim>\<open>set\<close> is \<open>AList.update\<close> (an existing key keeps its place, a new
  one goes to the end) and \<^verbatim>\<open>delete\<close> is \<open>AList.delete\<close>.
\<close>

record JobManager =
  jobs :: "(string \<times> Job) list"
  batches :: "(string \<times> Batch) list"

definition new_JobManager :: JobManager where
  "new_JobManager = \<lparr>jobs = [], batches = []\<rparr>"

text \<open>A \<^verbatim>\<open>Map\<close> holds each key once.\<close>

definition wf_store :: "JobManager \<Rightarrow> bool" where
  "wf_store m \<longleftrightarrow> distinct (map fst (jobs m)) \<and> distinct (map fst (batches m))"

text \<open>
  \<^verbatim>\<open>createJob\<close>; the results of \<^verbatim>\<open>randomUUID()\<close> and \<^verbatim>\<open>Date.now()\<close> are the
  arguments \<open>uuid\<close> and \<open>now\<close>.
\<close>

definition createJob :: "string \<Rightarrow> int \<Rightarrow> JobManager \<Rightarrow> string \<times> JobManager" where
  "createJob uuid now m =
     (let job = \<lparr>job_id = uuid, status = Pending, imageUrl = None, error = None,
                 createdAt = now\<rparr>
      in (uuid, m\<lparr>jobs := AList.update uuid job (jobs m)\<rparr>))"

definition getJob :: "JobManager \<Rightarrow> string \<Rightarrow> Job option" where
  "getJob m i = map_of (jobs m) i"

text \<open>The spread \<^verbatim>\<open>{ ...job, ...updates }\<close>.\<close>

definition spread :: "Job \<Rightarrow> JobUpdate \<Rightarrow> Job" where
  "spread job u =
     \<lparr>job_id = (case u_id u of None \<Rightarrow> job_id job | Some v \<Rightarrow> v),
      status = (case u_status u of None \<Rightarrow> status job | Some v \<Rightarrow> v),
      imageUrl = (case u_imageUrl u of None \<Rightarrow> imageUrl job | Some v \<Rightarrow> v),
      error = (case u_error u of None \<Rightarrow> error job | Some v \<Rightarrow> v),
      createdAt = (case u_createdAt u of None \<Rightarrow> createdAt job | Some v \<Rightarrow> v)\<rparr>"

definition updateJob :: "string \<Rightarrow> JobUpdate \<Rightarrow> JobManager \<Rightarrow> JobManager" where
  "updateJob i updates m =
     (case map_of (jobs m) i of
        Some job \<Rightarrow> m\<lparr>jobs := AList.update i (spread job updates) (jobs m)\<rparr>
      | None \<Rightarrow> m)"

definition createBatch ::
  "string \<Rightarrow> int \<Rightarrow> string list \<Rightarrow> number \<Rightarrow> JobManager \<Rightarrow> string \<times> JobManager" where
  "createBatch uuid now ids conc m =
     (let batch = \<lparr>batch_id = uuid, jobIds = ids, concurrency = conc,
                   batch_createdAt = now\<rparr>
      in (uuid, m\<lparr>batches := AList.update uuid batch (batches m)\<rparr>))"

definition getBatch :: "JobManager \<Rightarrow> string \<Rightarrow> Batch option" where
  "getBatch m i = map_of (batches m) i"

text \<open>
  \<^verbatim>\<open>cleanup\<close>: each loop walks the entries of its map and deletes the entry it stands
  on when that entry is older than the cutoff. Deleting the current entry does not disturb
  the walk, so every entry of the map at the start is visited once.
\<close>

definition sweep :: "('v \<Rightarrow> int) \<Rightarrow> int \<Rightarrow> (string \<times> 'v) list \<Rightarrow> (string \<times> 'v) list" where
  "sweep stamp cutoff entries =
     fold (\<lambda>(i, v) al. if stamp v < cutoff then AList.delete i al else al) entries entries"

definition cleanup :: "int \<Rightarrow> int \<Rightarrow> JobManager \<Rightarrow> JobManager" where
  "cleanup now olderThanMs m =
     (let cutoff = now - olderThanMs
      in \<lparr>jobs = sweep createdAt cutoff (jobs m),
          batches = sweep batch_createdAt cutoff (batches m)\<rparr>)"

section \<open>Provider client (lib/gemini.ts) as the dispatcher sees it\<close>

text \<open>
  A thrown value is an \<^verbatim>\<open>Error\<close> instance with its message, or anything else. The
  promise returned by \<^verbatim>\<open>generateImage\<close> settles with a data URL or with a thrown value;
  when and how it settles is the environment's choice.
\<close>

datatype thrown = ErrorObj string | NonError

datatype outcome = Image string | Failure thrown

datatype promise = InFlight | Fulfilled | Rejected thrown

text \<open>
  The process state that the route handlers share: the singleton \<^verbatim>\<open>jobManager\<close>,
  whether \<^verbatim>\<open>GEMINI_API_KEY\<close> is set, whether the singleton client has been built, and
  (for observation only, nothing reads it) the calls of \<^verbatim>\<open>jobManager.updateJob\<close> made by
  \<^verbatim>\<open>processJob\<close>, in order.
\<close>

record world =
  manager :: JobManager
  apiKey :: bool
  geminiClient :: bool
  trace :: "(string \<times> JobUpdate) list"

definition getGeminiClient :: "world \<Rightarrow> thrown + world" where
  "getGeminiClient w =
     (if \<not> geminiClient w then
        (if \<not> apiKey w
         then Inl (ErrorObj ''GEMINI_API_KEY environment variable is required'')
         else Inr (w\<lparr>geminiClient := True\<rparr>))
      else Inr w)"

section \<open>Generate route (app/api/generate/route.ts)\<close>

record GenerateRequest =
  prompt :: "string option"
  imageCount :: number
  req_concurrency :: number
  temperature :: number
  req_image :: "string option"
  mode :: "GenerationMode option"

definition jobManager_updateJob :: "string \<Rightarrow> JobUpdate \<Rightarrow> world \<Rightarrow> world" where
  "jobManager_updateJob i u w =
     w\<lparr>manager := updateJob i u (manager w), trace := trace w @ [(i, u)]\<rparr>"

definition error_message :: "thrown \<Rightarrow> string" where
  "error_message e = (case e of ErrorObj m \<Rightarrow> m | NonError \<Rightarrow> ''Unknown error'')"

text \<open>
  \<^verbatim>\<open>processJob\<close> is an async function with one \<^verbatim>\<open>await\<close>. \<open>processJob_begin\<close> is the
  part that runs inside the call, \<open>processJob_resume\<close> the part that runs when the awaited
  provider promise has settled, \<open>processJob_catch\<close> the \<^verbatim>\<open>catch\<close> block. Each returns the
  state of the promise of \<^verbatim>\<open>processJob\<close> with the new process state.
\<close>

definition processJob_catch :: "string \<Rightarrow> thrown \<Rightarrow> world \<Rightarrow> promise \<times> world" where
  "processJob_catch i e w =
     (Fulfilled,
      jobManager_updateJob i
        (no_update\<lparr>u_status := Some Error, u_error := Some (Some (error_message e))\<rparr>) w)"

definition processJob_begin :: "string \<Rightarrow> world \<Rightarrow> promise \<times> world" where
  "processJob_begin i w =
     (let w1 = jobManager_updateJob i (no_update\<lparr>u_status := Some Generating\<rparr>) w
      in case getGeminiClient w1 of
           Inl e \<Rightarrow> processJob_catch i e w1
         | Inr w2 \<Rightarrow> (InFlight, w2))"

definition processJob_resume :: "string \<Rightarrow> outcome \<Rightarrow> world \<Rightarrow> promise \<times> world" where
  "processJob_resume i out w =
     (case out of
        Image url \<Rightarrow>
          (Fulfilled,
           jobManager_updateJob i
             (no_update\<lparr>u_status := Some Complete, u_imageUrl := Some (Some url)\<rparr>) w)
      | Failure e \<Rightarrow> processJob_catch i e w)"

text \<open>
  One element of \<^verbatim>\<open>active\<close>: the promise \<^verbatim>\<open>processJob(jobId, request).finally(...)\<close>,
  named by a number, with the job it works on and the state of the \<^verbatim>\<open>processJob\<close>
  promise under it.
\<close>

record task =
  pid :: nat
  jobId :: string
  settled :: promise

datatype phase = Running | Awaiting | Returned | Threw thrown

text \<open>
  The variables of one \<^verbatim>\<open>processJobs\<close> call, with the process state. \<open>race\<close> is the
  promise \<^verbatim>\<open>Promise.race(active)\<close> that the function is awaiting.
\<close>

record dstate =
  sys :: world
  request :: GenerateRequest
  d_concurrency :: number
  queue :: "string list"
  active :: "task list"
  next_pid :: nat
  phase :: phase
  race :: promise

text \<open>One pass of the inner loop body: \<^verbatim>\<open>queue.shift()\<close>, the call, \<^verbatim>\<open>active.add\<close>.\<close>

definition admit :: "dstate \<Rightarrow> dstate" where
  "admit s =
     (case queue s of
        [] \<Rightarrow> s
      | i # rest \<Rightarrow>
          (let (p, w) = processJob_begin i (sys s)
           in s\<lparr>sys := w, queue := rest,
                active := active s @ [\<lparr>pid = next_pid s, jobId = i, settled = p\<rparr>],
                next_pid := Suc (next_pid s)\<rparr>))"

function admit_loop :: "dstate \<Rightarrow> dstate" where
  "admit_loop s =
     (if num_less (Num (of_nat (length (active s)))) (d_concurrency s) \<and> 0 < length (queue s)
      then admit_loop (admit s)
      else s)"
  by pat_completeness auto
termination
  by (relation "measure (\<lambda>s. length (queue s))")
    (auto simp: admit_def split: list.splits prod.splits)

declare admit_loop.simps [simp del]

text \<open>
  The outer loop from its head to the next \<^verbatim>\<open>await\<close> or to the end of the function.
  With nothing active and nothing admitted the loop comes round again without ever
  yielding; the result \<open>None\<close> is that case.
\<close>

partial_function (option) dispatch_loop :: "dstate \<Rightarrow> dstate option" where
  "dispatch_loop s =
     (if 0 < length (queue s) \<or> 0 < length (active s) then
        (let s' = admit_loop s
         in if 0 < length (active s')
            then Some (s'\<lparr>phase := Awaiting, race := InFlight\<rparr>)
            else dispatch_loop s')
      else Some (s\<lparr>phase := Returned\<rparr>))"

declare dispatch_loop.simps [code]

text \<open>The call \<^verbatim>\<open>processJobs(jobIds, request, concurrency)\<close>, up to its first suspension.\<close>

definition processJobs ::
  "string list \<Rightarrow> GenerateRequest \<Rightarrow> number \<Rightarrow> world \<Rightarrow> dstate option" where
  "processJobs ids req conc w =
     dispatch_loop \<lparr>sys = w, request = req, d_concurrency = conc, queue = ids, active = [],
       next_pid = 0, phase = Running, race = InFlight\<rparr>"

text \<open>
  What happens after the call, one event-loop job at a time:
  \<^item> \<open>Settle p out\<close>: the provider promise awaited by task \<open>p\<close> settles with \<open>out\<close> and
    \<^verbatim>\<open>processJob\<close> runs to its end;
  \<^item> \<open>Finally p\<close>: the \<^verbatim>\<open>finally\<close> callback of task \<open>p\<close> runs, the task's promise settles
    as the \<^verbatim>\<open>processJob\<close> promise did, and so does the race if it is still pending;
  \<^item> \<open>Resume\<close>: \<^verbatim>\<open>processJobs\<close> continues after its \<^verbatim>\<open>await\<close>, which throws when the
    race was rejected.
  An event that cannot happen in a state, and a \<open>Resume\<close> that never yields again, give
  \<open>None\<close>.
\<close>

datatype event = Settle nat outcome | Finally nat | Resume

fun step :: "event \<Rightarrow> dstate \<Rightarrow> dstate option" where
  "step (Settle p out) s =
     (case find (\<lambda>t. pid t = p) (active s) of
        None \<Rightarrow> None
      | Some t \<Rightarrow>
          (if settled t = InFlight then
             (let (r, w) = processJob_resume (jobId t) out (sys s)
              in Some (s\<lparr>sys := w,
                   active := map (\<lambda>t'. if pid t' = p then t'\<lparr>settled := r\<rparr> else t') (active s)\<rparr>))
           else None))"
| "step (Finally p) s =
     (case find (\<lambda>t. pid t = p) (active s) of
        None \<Rightarrow> None
      | Some t \<Rightarrow>
          (if settled t = InFlight then None
           else Some (s\<lparr>active := filter (\<lambda>t'. pid t' \<noteq> p) (active s),
                  race := (if phase s = Awaiting \<and> race s = InFlight then settled t
                           else race s)\<rparr>)))"
| "step Resume s =
     (if phase s = Awaiting then
        (case race s of
           InFlight \<Rightarrow> None
         | Fulfilled \<Rightarrow> dispatch_loop (s\<lparr>phase := Running\<rparr>)
         | Rejected e \<Rightarrow> Some (s\<lparr>phase := Threw e\<rparr>))
      else None)"

fun run :: "event list \<Rightarrow> dstate \<Rightarrow> dstate option" where
  "run [] s = Some s"
| "run (e # es) s = (case step e s of None \<Rightarrow> None | Some s' \<Rightarrow> run es s')"

text \<open>
  The handler. \<open>Malformed\<close> is a request whose \<^verbatim>\<open>request.json()\<close> rejects. \<open>rnd k\<close> and
  \<open>clk k\<close> are the results of the \<open>k\<close>-th \<^verbatim>\<open>randomUUID()\<close> and \<^verbatim>\<open>Date.now()\<close> of the
  request. The length of a prompt counts its characters.
\<close>

datatype submit = Malformed | Body GenerateRequest

datatype response_body = ErrorBody string | GenerateBody string "string list" JobStatus

record post_result =
  status_code :: nat
  body :: response_body
  after :: world
  dispatcher :: "dstate option"

function create_jobs ::
  "nat \<Rightarrow> number \<Rightarrow> (nat \<Rightarrow> string) \<Rightarrow> (nat \<Rightarrow> int) \<Rightarrow> string list \<Rightarrow> JobManager
     \<Rightarrow> string list \<times> JobManager" where
  "create_jobs i n rnd clk ids m =
     (if num_less (Num (of_nat i)) n
      then (let (j, m') = createJob (rnd i) (clk i) m
            in create_jobs (Suc i) n rnd clk (ids @ [j]) m')
      else (ids, m))"
  by pat_completeness auto
termination
proof (relation "measure (\<lambda>(i, n, _). case n of Num q \<Rightarrow> nat \<lceil>q\<rceil> - i | NaN \<Rightarrow> 0)")
  show "wf (measure (\<lambda>(i, n, _). case n of Num q \<Rightarrow> nat \<lceil>q\<rceil> - i | NaN \<Rightarrow> 0))"
    by simp
next
  fix i :: nat and n rnd clk ids m x xa y
  assume "num_less (Num (of_nat i)) n"
  then obtain q where n: "n = Num q" and lt: "of_nat i < q"
    by (cases n) auto
  have "of_nat i < (of_int \<lceil>q\<rceil> :: rat)"
    using lt by (rule less_le_trans) (rule le_of_int_ceiling)
  then have "int i < \<lceil>q\<rceil>"
    by (metis of_int_less_iff of_int_of_nat_eq)
  then show "((Suc i, n, rnd, clk, ids @ [xa], y), (i, n, rnd, clk, ids, m))
      \<in> measure (\<lambda>(i, n, _). case n of Num q \<Rightarrow> nat \<lceil>q\<rceil> - i | NaN \<Rightarrow> 0)"
    by (simp add: n)
qed

declare create_jobs.simps [simp del]

definition POST ::
  "submit \<Rightarrow> (nat \<Rightarrow> string) \<Rightarrow> (nat \<Rightarrow> int) \<Rightarrow> world \<Rightarrow> post_result option" where
  "POST r rnd clk w =
     (case r of
        Malformed \<Rightarrow>
          Some \<lparr>status_code = 500, body = ErrorBody ''Internal server error'', after = w,
                 dispatcher = None\<rparr>
      | Body b \<Rightarrow>
          if (case prompt b of None \<Rightarrow> True | Some p \<Rightarrow> p = [] \<or> length p < 3) then
            Some \<lparr>status_code = 400, body = ErrorBody ''Prompt must be at least 3 characters'',
                   after = w, dispatcher = None\<rparr>
          else if num_less (imageCount b) (Num 1) \<or> num_greater (imageCount b) (Num 10) then
            Some \<lparr>status_code = 400, body = ErrorBody ''Image count must be between 1 and 10'',
                   after = w, dispatcher = None\<rparr>
          else if num_less (req_concurrency b) (Num 1) \<or> num_greater (req_concurrency b) (Num 5)
          then
            Some \<lparr>status_code = 400, body = ErrorBody ''Concurrency must be between 1 and 5'',
                   after = w, dispatcher = None\<rparr>
          else
            (let (ids, m1) = create_jobs 0 (imageCount b) rnd clk [] (manager w);
                 (batchId, m2) =
                    createBatch (rnd (length ids)) (clk (length ids)) ids (req_concurrency b) m1
             in case processJobs ids b (req_concurrency b) (w\<lparr>manager := m2\<rparr>) of
                  None \<Rightarrow> None
                | Some d \<Rightarrow>
                    Some \<lparr>status_code = 200, body = GenerateBody batchId ids Pending,
                           after = sys d, dispatcher = Some d\<rparr>))"

section \<open>Observations on a dispatcher state\<close>

text \<open>The status of a job in the store, if the store holds it.\<close>

definition st :: "world \<Rightarrow> string \<Rightarrow> JobStatus option" where
  "st w j = map_option status (getJob (manager w) j)"

text \<open>The number of admissions that a concurrency value allows at once.\<close>

fun slots :: "number \<Rightarrow> nat" where
  "slots (Num q) = nat \<lceil>q\<rceil>"
| "slots NaN = 0"

text \<open>The tasks whose provider call has not settled, and the jobs marked \<^verbatim>\<open>generating\<close>.\<close>

definition in_flight :: "dstate \<Rightarrow> task list" where
  "in_flight s = filter (\<lambda>t. settled t = InFlight) (active s)"

definition generating :: "string list \<Rightarrow> dstate \<Rightarrow> string set" where
  "generating ids s = {j \<in> set ids. st (sys s) j = Some Generating}"

definition terminal :: "dstate \<Rightarrow> string \<Rightarrow> bool" where
  "terminal s j \<longleftrightarrow> st (sys s) j = Some Complete \<or> st (sys s) j = Some Error"

text \<open>Each element of \<^verbatim>\<open>active\<close> is its own promise.\<close>

definition inv_pids :: "dstate \<Rightarrow> bool" where
  "inv_pids s \<longleftrightarrow> distinct (map pid (active s)) \<and> (\<forall>t \<in> set (active s). pid t < next_pid s)"

text \<open>
  What is left to do: three event-loop jobs for a queued job or an unsettled task, two for
  a settled task, one for a continuation that is due.
\<close>

definition rank :: "dstate \<Rightarrow> nat" where
  "rank s =
     3 * length (queue s)
     + sum_list (map (\<lambda>t. if settled t = InFlight then 3 else 2) (active s))
     + (if phase s = Awaiting \<and> race s \<noteq> InFlight then 1 else 0)"

text \<open>
  No promise has been rejected, the function has not thrown, it has returned only with
  nothing queued or active, and it waits on a pending race only while something is active.
\<close>

definition healthy :: "dstate \<Rightarrow> bool" where
  "healthy s \<longleftrightarrow>
     (\<forall>t \<in> set (active s). settled t = InFlight \<or> settled t = Fulfilled)
     \<and> (race s = InFlight \<or> race s = Fulfilled)
     \<and> (phase s = Running \<or> phase s = Awaiting \<or> phase s = Returned)
     \<and> (phase s = Returned \<longrightarrow> queue s = [] \<and> active s = [])
     \<and> (phase s = Awaiting \<and> race s = InFlight \<longrightarrow> active s \<noteq> [])"

text \<open>Every job of the list is in the store and is queued, being worked on, or terminal.\<close>

definition accounted :: "string list \<Rightarrow> dstate \<Rightarrow> bool" where
  "accounted ids s \<longleftrightarrow>
     (\<forall>j \<in> set ids. st (sys s) j \<noteq> None
        \<and> (j \<in> set (queue s)
           \<or> (\<exists>t \<in> set (active s). jobId t = j \<and> settled t = InFlight)
           \<or> terminal s j))"

text \<open>
  The calls of \<^verbatim>\<open>updateJob\<close> made since the process state \<open>w\<close>, and the jobs that
  those calls marked \<^verbatim>\<open>generating\<close>, in order.
\<close>

definition calls_since :: "world \<Rightarrow> dstate \<Rightarrow> (string \<times> JobUpdate) list" where
  "calls_since w s = drop (length (trace w)) (trace (sys s))"

definition admissions :: "world \<Rightarrow> dstate \<Rightarrow> string list" where
  "admissions w s =
     map fst (filter (\<lambda>c. u_status (snd c) = Some Generating) (calls_since w s))"

text \<open>
  Calls that come in pairs, job by job in the order of \<open>ids\<close>: the mark \<^verbatim>\<open>generating\<close>,
  then the terminal write of the same job.
\<close>

definition alternating :: "string list \<Rightarrow> (string \<times> JobUpdate) list \<Rightarrow> bool" where
  "alternating ids tr \<longleftrightarrow>
     length tr \<le> 2 * length ids
     \<and> (\<forall>k < length tr.
          fst (tr ! k) = ids ! (k div 2)
          \<and> (if even k then u_status (snd (tr ! k)) = Some Generating
              else u_status (snd (tr ! k)) = Some Complete
                 \<or> u_status (snd (tr ! k)) = Some Error))"

text \<open>The bookkeeping behind the pairing when the limit is 1.\<close>

definition seq_inv :: "string list \<Rightarrow> world \<Rightarrow> dstate \<Rightarrow> bool" where
  "seq_inv ids w s \<longleftrightarrow>
     (\<exists>tr a. trace (sys s) = trace w @ tr \<and> alternating ids tr
        \<and> d_concurrency s = Num 1 \<and> length (active s) \<le> 1
        \<and> a \<le> length ids \<and> queue s = drop a ids
        \<and> (if in_flight s = [] then length tr = 2 * a
            else Suc (length tr) = 2 * a \<and> (\<forall>t \<in> set (active s). jobId t = ids ! (a - 1))))"

text \<open>
  No job is queued or being worked on twice, and no job that is queued or being worked on
  is terminal.
\<close>

definition write_once :: "dstate \<Rightarrow> bool" where
  "write_once s \<longleftrightarrow>
     distinct (queue s @ map jobId (active s))
     \<and> (\<forall>j \<in> set (queue s). \<not> terminal s j)
     \<and> (\<forall>t \<in> set (active s). settled t = InFlight \<longrightarrow> \<not> terminal s (jobId t))"

section \<open>Sample inputs\<close>

definition sample_store :: JobManager where
  "sample_store = snd (createJob ''a'' 7 new_JobManager)"

definition sample_done :: JobUpdate where
  "sample_done = no_update\<lparr>u_status := Some Complete, u_imageUrl := Some (Some ''test.png'')\<rparr>"

definition finished_store :: JobManager where
  "finished_store = updateJob ''a'' sample_done sample_store"

definition sample_reset :: JobUpdate where
  "sample_reset = no_update\<lparr>u_status := Some Pending\<rparr>"

definition aged_store :: JobManager where
  "aged_store =
     snd (createBatch ''c'' 100 [''b''] (Num 1)
       (snd (createJob ''b'' 100 (snd (createJob ''a'' 0 new_JobManager)))))"

definition idle_world :: world where
  "idle_world = \<lparr>manager = new_JobManager, apiKey = True, geminiClient = False, trace = []\<rparr>"

definition sample_request :: GenerateRequest where
  "sample_request = \<lparr>prompt = Some ''a cat'', imageCount = Num 2, req_concurrency = Num 1,
     temperature = Num 1, req_image = None, mode = None\<rparr>"

definition two_jobs :: world where
  "two_jobs =
     \<lparr>manager = snd (createJob ''b'' 0 (snd (createJob ''a'' 0 new_JobManager))),
      apiKey = True, geminiClient = False, trace = []\<rparr>"

definition sample_run :: "event list" where
  "sample_run = [Settle 0 (Image ''u''), Finally 0, Resume, Settle 1 (Failure (ErrorObj ''quota''))]"

definition full_run :: "event list" where
  "full_run = sample_run @ [Finally 1, Resume]"

definition first_half :: "event list" where
  "first_half = [Settle 0 (Image ''u'')]"

definition second_half :: "event list" where
  "second_half = [Finally 0, Resume, Settle 1 (Failure (ErrorObj ''quota'')), Finally 1, Resume]"






section \<open>Properties of the job store\<close>

lemma getJob_createJob:
  "getJob (snd (createJob uuid now m)) i =
     (if i = uuid
      then Some \<lparr>job_id = uuid, status = Pending, imageUrl = None, error = None,
                 createdAt = now\<rparr>
      else getJob m i)"
  by (simp add: createJob_def getJob_def Let_def update_conv')

lemma getJob_updateJob:
  "getJob (updateJob i u m) k =
     (if k = i then map_option (\<lambda>job. spread job u) (getJob m i) else getJob m k)"
  by (simp add: updateJob_def getJob_def update_conv' split: option.splits)

lemma batches_updateJob: "batches (updateJob i u m) = batches m"
  by (simp add: updateJob_def split: option.splits)

lemma wf_store_new: "wf_store new_JobManager"
  by (simp add: wf_store_def new_JobManager_def)

lemma wf_store_createJob: "wf_store m \<Longrightarrow> wf_store (snd (createJob uuid now m))"
  by (simp add: wf_store_def createJob_def Let_def distinct_update)

lemma wf_store_createBatch:
  "wf_store m \<Longrightarrow> wf_store (snd (createBatch uuid now ids conc m))"
  by (simp add: wf_store_def createBatch_def Let_def distinct_update)

lemma wf_store_updateJob: "wf_store m \<Longrightarrow> wf_store (updateJob i u m)"
  by (simp add: wf_store_def updateJob_def distinct_update split: option.splits)


lemma map_of_sweep_fold:
  "map_of (fold (\<lambda>(i, v) al. if stamp v < cutoff then AList.delete i al else al) xs al) k =
     (if \<exists>v. (k, v) \<in> set xs \<and> stamp v < cutoff then None else map_of al k)"
proof (induction xs arbitrary: al)
  case Nil
  show ?case by simp
next
  case (Cons x xs)
  obtain i v where x: "x = (i, v)" by (cases x)
  show ?case
  proof (cases "stamp v < cutoff")
    case True
    then show ?thesis
      unfolding x by (simp add: Cons.IH delete_conv') blast
  next
    case False
    then show ?thesis
      unfolding x by (simp add: Cons.IH) blast
  qed
qed

lemma map_of_sweep:
  assumes "distinct (map fst al)"
  shows "map_of (sweep stamp cutoff al) k =
     (case map_of al k of None \<Rightarrow> None
      | Some v \<Rightarrow> if stamp v < cutoff then None else Some v)"
proof (cases "map_of al k")
  case None
  then have "k \<notin> fst ` set al"
    by (simp add: map_of_eq_None_iff)
  then have "(k, w) \<notin> set al" for w
    by force
  with None show ?thesis by (simp add: sweep_def map_of_sweep_fold)
next
  case (Some v)
  have "(k, w) \<in> set al \<longleftrightarrow> w = v" for w
    using map_of_eq_Some_iff [OF assms, of k w] Some by auto
  then show ?thesis using Some by (simp add: sweep_def map_of_sweep_fold)
qed

lemma distinct_sweep_fold:
  "distinct (map fst al) \<Longrightarrow>
   distinct (map fst (fold (\<lambda>(i, v) al. if stamp v < cutoff then AList.delete i al else al) xs al))"
proof (induction xs arbitrary: al)
  case Nil
  then show ?case by simp
next
  case (Cons x xs)
  obtain i v where x: "x = (i, v)" by (cases x)
  show ?case
    unfolding x using Cons.prems by (simp add: Cons.IH distinct_delete)
qed

lemma wf_store_cleanup: "wf_store m \<Longrightarrow> wf_store (cleanup now age m)"
  by (simp add: wf_store_def cleanup_def sweep_def distinct_sweep_fold Let_def)

lemma getJob_new: "getJob new_JobManager i = None"
  by (simp add: getJob_def new_JobManager_def)

lemma getJob_cleanup:
  "wf_store m \<Longrightarrow>
   getJob (cleanup now age m) i =
     (case getJob m i of None \<Rightarrow> None
      | Some job \<Rightarrow> if createdAt job < now - age then None else Some job)"
  by (simp add: wf_store_def cleanup_def getJob_def map_of_sweep Let_def)

lemma getBatch_cleanup:
  "wf_store m \<Longrightarrow>
   getBatch (cleanup now age m) b =
     (case getBatch m b of None \<Rightarrow> None
      | Some batch \<Rightarrow> if batch_createdAt batch < now - age then None else Some batch)"
  by (simp add: wf_store_def cleanup_def getBatch_def map_of_sweep Let_def)

text \<open>
  C6. Reclamation: after \<^verbatim>\<open>cleanup\<close> with any retention window, a job or batch whose
  \<^verbatim>\<open>createdAt\<close> is older than \<^verbatim>\<open>now - maxAgeMs\<close> is no longer found by
  \<^verbatim>\<open>getJob\<close>/\<^verbatim>\<open>getBatch\<close>, and every other entry is returned as it was.
\<close>

theorem C6_cleanup_reclaims:
  assumes "wf_store m"
  shows "getJob (cleanup now maxAgeMs m) i =
           (case getJob m i of None \<Rightarrow> None
            | Some job \<Rightarrow> if createdAt job < now - maxAgeMs then None else Some job)
       \<and> getBatch (cleanup now maxAgeMs m) b =
           (case getBatch m b of None \<Rightarrow> None
            | Some batch \<Rightarrow>
                if batch_createdAt batch < now - maxAgeMs then None else Some batch)"
  using assms by (simp add: getJob_cleanup getBatch_cleanup)


text \<open>
  C7. A job created at time \<open>t\<close> is gone after \<^verbatim>\<open>cleanup(0)\<close> at time \<open>t'\<close> exactly when
  \<open>t < t'\<close>: the comparison with the cutoff is strict, so a sweep in the millisecond of
  creation keeps the job.
\<close>

theorem C7_zero_retention:
  assumes "wf_store m"
  shows "(getJob (cleanup t' 0 (snd (createJob uuid t m))) (fst (createJob uuid t m)) = None)
           \<longleftrightarrow> t < t'"
proof -
  have wf: "wf_store (snd (createJob uuid t m))"
    using assms by (rule wf_store_createJob)
  have i: "fst (createJob uuid t m) = uuid"
    by (simp add: createJob_def Let_def)
  show ?thesis
    using getJob_cleanup [OF wf, of t' 0 uuid] by (simp add: i getJob_createJob)
qed

theorem C7_zero_retention_witness:
  "wf_store new_JobManager
   \<and> getJob (cleanup 6 0 (snd (createJob ''a'' 5 new_JobManager)))
        (fst (createJob ''a'' 5 new_JobManager)) = None"
  using C7_zero_retention [of new_JobManager 6 "''a''" 5] wf_store_new
  by simp

theorem C7_same_timestamp_counterexample:
  "getJob (cleanup 5 0 (snd (createJob ''a'' 5 new_JobManager)))
     (fst (createJob ''a'' 5 new_JobManager)) \<noteq> None"
  by (simp add: getJob_def cleanup_def sweep_def createJob_def new_JobManager_def Let_def)

text \<open>
  C8. \<^verbatim>\<open>updateJob\<close> on an identifier that the store does not hold returns the store as
  it is. On one that it holds, each field of the stored job becomes the given value when
  the update carries that field and stays as it was otherwise; no key is added or removed,
  every other job and every batch is unchanged. The function has no failing branch.
\<close>

theorem C8_updateJob:
  "(getJob m i = None \<longrightarrow> updateJob i u m = m)
   \<and> (\<forall>job. getJob m i = Some job \<longrightarrow>
        (\<exists>job'. getJob (updateJob i u m) i = Some job'
           \<and> job_id job' = (case u_id u of None \<Rightarrow> job_id job | Some v \<Rightarrow> v)
           \<and> status job' = (case u_status u of None \<Rightarrow> status job | Some v \<Rightarrow> v)
           \<and> imageUrl job' = (case u_imageUrl u of None \<Rightarrow> imageUrl job | Some v \<Rightarrow> v)
           \<and> error job' = (case u_error u of None \<Rightarrow> error job | Some v \<Rightarrow> v)
           \<and> createdAt job' = (case u_createdAt u of None \<Rightarrow> createdAt job | Some v \<Rightarrow> v)))
   \<and> (\<forall>k. k \<noteq> i \<longrightarrow> getJob (updateJob i u m) k = getJob m k)
   \<and> map fst (jobs (updateJob i u m)) = map fst (jobs m)
   \<and> batches (updateJob i u m) = batches m"
proof -
  have absent: "getJob m i = None \<longrightarrow> updateJob i u m = m"
    by (simp add: getJob_def updateJob_def)
  have present: "\<forall>job. getJob m i = Some job \<longrightarrow>
        (\<exists>job'. getJob (updateJob i u m) i = Some job'
           \<and> job_id job' = (case u_id u of None \<Rightarrow> job_id job | Some v \<Rightarrow> v)
           \<and> status job' = (case u_status u of None \<Rightarrow> status job | Some v \<Rightarrow> v)
           \<and> imageUrl job' = (case u_imageUrl u of None \<Rightarrow> imageUrl job | Some v \<Rightarrow> v)
           \<and> error job' = (case u_error u of None \<Rightarrow> error job | Some v \<Rightarrow> v)
           \<and> createdAt job' = (case u_createdAt u of None \<Rightarrow> createdAt job | Some v \<Rightarrow> v))"
    by (simp add: getJob_updateJob spread_def)
  have others: "\<forall>k. k \<noteq> i \<longrightarrow> getJob (updateJob i u m) k = getJob m k"
    by (simp add: getJob_updateJob)
  have keys: "map fst (jobs (updateJob i u m)) = map fst (jobs m)"
  proof (cases "map_of (jobs m) i")
    case None
    then show ?thesis by (simp add: updateJob_def)
  next
    case (Some job)
    then have "i \<in> fst ` set (jobs m)"
      by (metis option.distinct(1) map_of_eq_None_iff)
    then show ?thesis
      using Some by (simp add: updateJob_def update_keys)
  qed
  show ?thesis
    using absent present others keys batches_updateJob by blast
qed

theorem C8_updateJob_witness:
  "getJob sample_store ''b'' = None
   \<and> updateJob ''b'' sample_done sample_store = sample_store
   \<and> (\<exists>job. getJob sample_store ''a'' = Some job)
   \<and> map_option status (getJob (updateJob ''a'' sample_done sample_store) ''a'') = Some Complete
   \<and> map_option imageUrl (getJob (updateJob ''a'' sample_done sample_store) ''a'')
       = Some (Some ''test.png'')"
proof -
  have a: "getJob sample_store ''b'' = None"
    by (simp add: sample_store_def getJob_createJob getJob_new)
  have b: "getJob sample_store ''a'' =
             Some \<lparr>job_id = ''a'', status = Pending, imageUrl = None, error = None,
                    createdAt = 7\<rparr>"
    by (simp add: sample_store_def getJob_createJob)
  show ?thesis
    using C8_updateJob [of sample_store "''b''" sample_done]
      C8_updateJob [of sample_store "''a''" sample_done] a b
    by (auto simp: sample_done_def no_update_def)
qed

text \<open>
  C2, as stated, fails: \<^verbatim>\<open>updateJob\<close> has no guard on the current status, so a job that
  is \<^verbatim>\<open>complete\<close> is put back to \<^verbatim>\<open>pending\<close> by an update that says so.
\<close>

theorem C2_updateJob_counterexample:
  "map_option status (getJob finished_store ''a'') = Some Complete
   \<and> map_option status (getJob (updateJob ''a'' sample_reset finished_store) ''a'')
       = Some Pending"
  by (simp add: finished_store_def sample_store_def sample_done_def sample_reset_def
      no_update_def getJob_updateJob getJob_createJob spread_def)


lemma wf_aged_store: "wf_store aged_store"
  unfolding aged_store_def
  by (intro wf_store_createBatch wf_store_createJob wf_store_new)

theorem C6_cleanup_reclaims_witness:
  "wf_store aged_store
   \<and> getJob (cleanup 150 100 aged_store) ''a'' = None
   \<and> getBatch (cleanup 150 100 aged_store) ''c'' \<noteq> None"
proof -
  have a: "getJob aged_store ''a'' =
      Some \<lparr>job_id = ''a'', status = Pending, imageUrl = None, error = None, createdAt = 0\<rparr>"
    by (simp add: aged_store_def getJob_def createBatch_def createJob_def
        new_JobManager_def Let_def)
  have c: "getBatch aged_store ''c'' =
      Some \<lparr>batch_id = ''c'', jobIds = [''b''], concurrency = Num 1, batch_createdAt = 100\<rparr>"
    by (simp add: aged_store_def getBatch_def createBatch_def Let_def update_conv')
  show ?thesis
    using C6_cleanup_reclaims [OF wf_aged_store, of 150 100 "''a''" "''c''"] wf_aged_store
    by (simp add: a c)
qed


section \<open>Properties of the handler\<close>

lemma create_jobs_NaN: "create_jobs i NaN rnd clk ids m = (ids, m)"
  by (subst create_jobs.simps) simp

lemma dispatch_loop_idle:
  "queue s = [] \<Longrightarrow> active s = [] \<Longrightarrow> dispatch_loop s = Some (s\<lparr>phase := Returned\<rparr>)"
  by (subst dispatch_loop.simps) simp



text \<open>
  C10. When \<^verbatim>\<open>imageCount\<close> is absent (or \<^verbatim>\<open>NaN\<close>) and the prompt and the concurrency pass
  their checks, the range check on \<^verbatim>\<open>imageCount\<close> rejects nothing: the handler creates no
  job, stores a batch with an empty job list and answers 200 with an empty \<^verbatim>\<open>jobIds\<close>.
\<close>

theorem C10_missing_imageCount:
  assumes "prompt b = Some p" and "3 \<le> length p" and "imageCount b = NaN"
    and "\<not> num_less (req_concurrency b) (Num 1)"
    and "\<not> num_greater (req_concurrency b) (Num 5)"
  shows "\<not> num_less (imageCount b) (Num 1) \<and> \<not> num_greater (imageCount b) (Num 10)
     \<and> (\<exists>r. POST (Body b) rnd clk w = Some r
          \<and> status_code r = 200
          \<and> body r = GenerateBody (rnd 0) [] Pending
          \<and> jobs (manager (after r)) = jobs (manager w)
          \<and> getBatch (manager (after r)) (rnd 0) =
              Some \<lparr>batch_id = rnd 0, jobIds = [], concurrency = req_concurrency b,
                     batch_createdAt = clk 0\<rparr>
          \<and> map_option phase (dispatcher r) = Some Returned)"
proof -
  have p: "p \<noteq> []" "\<not> length p < 3"
    using assms(2) by auto
  show ?thesis
    using assms p
    by (simp add: POST_def num_greater_def create_jobs_NaN createBatch_def processJobs_def
        dispatch_loop_idle getBatch_def update_conv' Let_def)
qed

theorem C10_missing_imageCount_witness:
  "\<exists>r. POST (Body (sample_request\<lparr>imageCount := NaN\<rparr>)) (\<lambda>k. ''j'') (\<lambda>k. 0) idle_world = Some r
      \<and> status_code r = 200 \<and> body r = GenerateBody ''j'' [] Pending
      \<and> jobs (manager (after r)) = []"
  using C10_missing_imageCount [of "sample_request\<lparr>imageCount := NaN\<rparr>" "''a cat''"
      "\<lambda>k. ''j''" "\<lambda>k. 0" idle_world]
  by (simp add: sample_request_def num_greater_def idle_world_def new_JobManager_def) blast
section \<open>Properties of the dispatcher\<close>

lemma spread_status_only:
  "spread job (no_update\<lparr>u_status := Some v\<rparr>) = job\<lparr>status := v\<rparr>"
  by (simp add: spread_def no_update_def)

lemma spread_complete:
  "spread job (no_update\<lparr>u_status := Some v, u_imageUrl := Some (Some url)\<rparr>)
     = job\<lparr>status := v, imageUrl := Some url\<rparr>"
  by (simp add: spread_def no_update_def)

lemma spread_error:
  "spread job (no_update\<lparr>u_status := Some v, u_error := Some (Some m)\<rparr>)
     = job\<lparr>status := v, error := Some m\<rparr>"
  by (simp add: spread_def no_update_def)

lemma fst_processJob_begin:
  "fst (processJob_begin i w) = (if geminiClient w \<or> apiKey w then InFlight else Fulfilled)"
  by (simp add: processJob_begin_def processJob_catch_def getGeminiClient_def
      jobManager_updateJob_def Let_def)

lemma getJob_processJob_begin:
  "getJob (manager (snd (processJob_begin i w))) k =
     (if k = i
      then map_option
             (\<lambda>job. if geminiClient w \<or> apiKey w then job\<lparr>status := Generating\<rparr>
                     else job\<lparr>status := Error,
                            error := Some ''GEMINI_API_KEY environment variable is required''\<rparr>)
             (getJob (manager w) i)
      else getJob (manager w) k)"
  by (simp add: processJob_begin_def processJob_catch_def getGeminiClient_def
      jobManager_updateJob_def Let_def getJob_updateJob spread_status_only spread_error
      error_message_def option.map_comp comp_def)

lemma fst_processJob_resume: "fst (processJob_resume i out w) = Fulfilled"
  by (simp add: processJob_resume_def processJob_catch_def split: outcome.splits)

lemma getJob_processJob_resume:
  "getJob (manager (snd (processJob_resume i out w))) k =
     (if k = i
      then map_option
             (\<lambda>job. case out of
                       Image url \<Rightarrow> job\<lparr>status := Complete, imageUrl := Some url\<rparr>
                     | Failure e \<Rightarrow> job\<lparr>status := Error, error := Some (error_message e)\<rparr>)
             (getJob (manager w) i)
      else getJob (manager w) k)"
  by (simp add: processJob_resume_def processJob_catch_def jobManager_updateJob_def
      getJob_updateJob spread_complete spread_error split: outcome.splits)



lemma admit_Cons:
  "queue s = i # rest \<Longrightarrow>
   admit s = s\<lparr>sys := snd (processJob_begin i (sys s)), queue := rest,
       active := active s @ [\<lparr>pid = next_pid s, jobId = i,
                                settled = fst (processJob_begin i (sys s))\<rparr>],
       next_pid := Suc (next_pid s)\<rparr>"
  by (simp add: admit_def split: prod.splits)

lemma admit_loop_step:
  "num_less (Num (of_nat (length (active s)))) (d_concurrency s) \<Longrightarrow> queue s \<noteq> [] \<Longrightarrow>
   admit_loop s = admit_loop (admit s)"
  using admit_loop.simps [of s] by simp

lemma admit_loop_stop:
  "\<not> num_less (Num (of_nat (length (active s)))) (d_concurrency s) \<or> queue s = [] \<Longrightarrow>
   admit_loop s = s"
  using admit_loop.simps [of s] by auto

lemma admit_loop_induct [consumes 1, case_names admit]:
  assumes "P s"
    and "\<And>s i rest. P s \<Longrightarrow> queue s = i # rest \<Longrightarrow>
           num_less (Num (of_nat (length (active s)))) (d_concurrency s) \<Longrightarrow> P (admit s)"
  shows "P (admit_loop s)"
  using assms(1)
proof (induction s rule: admit_loop.induct)
  case (1 s)
  show ?case
  proof (cases "num_less (Num (of_nat (length (active s)))) (d_concurrency s) \<and> queue s \<noteq> []")
    case True
    then obtain i rest where q: "queue s = i # rest"
      by (cases "queue s") auto
    have "P (admit s)"
      using "1.prems" q True by (auto intro: assms(2))
    then have "P (admit_loop (admit s))"
      using True by (intro "1.IH") auto
    then show ?thesis
      using True by (simp add: admit_loop_step)
  next
    case False
    then show ?thesis
      using "1.prems" admit_loop_stop [of s] by auto
  qed
qed

lemma admit_loop_done:
  "\<not> num_less (Num (of_nat (length (active (admit_loop s))))) (d_concurrency (admit_loop s))
   \<or> queue (admit_loop s) = []"
proof (induction s rule: admit_loop.induct)
  case (1 s)
  show ?case
  proof (cases "num_less (Num (of_nat (length (active s)))) (d_concurrency s) \<and> queue s \<noteq> []")
    case True
    then show ?thesis using "1.IH" by (simp add: admit_loop_step)
  next
    case False
    then show ?thesis using admit_loop_stop [of s] by auto
  qed
qed

lemma admit_loop_grows:
  "length (active s) \<le> length (active (admit_loop s))
   \<and> (active (admit_loop s) = [] \<longrightarrow> admit_loop s = s)"
proof (induction s rule: admit_loop.induct)
  case (1 s)
  show ?case
  proof (cases "num_less (Num (of_nat (length (active s)))) (d_concurrency s) \<and> queue s \<noteq> []")
    case True
    then obtain i rest where q: "queue s = i # rest"
      by (cases "queue s") auto
    have "length (active (admit s)) = Suc (length (active s))"
      by (simp add: admit_Cons [OF q])
    then show ?thesis
      using "1.IH" True by (auto simp: admit_loop_step)
  next
    case False
    then show ?thesis using admit_loop_stop [of s] by auto
  qed
qed

lemma dispatch_loop_Some:
  assumes "dispatch_loop s = Some s'"
  shows "(queue s = [] \<and> active s = [] \<and> s' = s\<lparr>phase := Returned\<rparr>)
       \<or> (active (admit_loop s) \<noteq> [] \<and> s' = (admit_loop s)\<lparr>phase := Awaiting, race := InFlight\<rparr>)"
proof -
  define P where "P = (\<lambda>s s'. (queue s = [] \<and> active s = [] \<and> s' = s\<lparr>phase := Returned\<rparr>)
       \<or> (active (admit_loop s) \<noteq> [] \<and> s' = (admit_loop s)\<lparr>phase := Awaiting, race := InFlight\<rparr>))"
  have "P s s'"
  proof (rule dispatch_loop.raw_induct [where P = P, OF _ assms])
    fix f s y
    assume IH: "\<And>x y. f x = Some y \<Longrightarrow> P x y"
      and body: "(if 0 < length (queue s) \<or> 0 < length (active s)
          then let s' = admit_loop s
               in if 0 < length (active s')
                  then Some (s'\<lparr>phase := Awaiting, race := InFlight\<rparr>)
                  else f s'
          else Some (s\<lparr>phase := Returned\<rparr>)) = Some y"
    show "P s y"
    proof (cases "queue s = [] \<and> active s = []")
      case True
      then show ?thesis using body by (auto simp: P_def)
    next
      case False
      show ?thesis
      proof (cases "active (admit_loop s) = []")
        case True
        then have same: "admit_loop s = s"
          using admit_loop_grows [of s] by simp
        have "f s = Some y"
          using body False True same by (auto simp: Let_def)
        then show ?thesis by (rule IH)
      next
        case nonempty: False
        then show ?thesis
          using body False by (auto simp: Let_def P_def)
      qed
    qed
  qed
  then show ?thesis by (simp add: P_def)
qed

lemma dispatch_loop_returns:
  assumes "queue s = [] \<or> active s \<noteq> []
           \<or> num_less (Num (of_nat (length (active s)))) (d_concurrency s)"
  shows "dispatch_loop s \<noteq> None"
proof (cases "queue s = [] \<and> active s = []")
  case True
  then show ?thesis by (simp add: dispatch_loop_idle)
next
  case False
  have "active (admit_loop s) \<noteq> []"
  proof (cases "active s = []")
    case True
    then obtain i rest where q: "queue s = i # rest"
      using False by (cases "queue s") auto
    have "active (admit s) \<noteq> []"
      by (simp add: admit_Cons [OF q])
    then have "active (admit_loop (admit s)) \<noteq> []"
      using admit_loop_grows [of "admit s"] by auto
    then show ?thesis
      using assms True q by (simp add: admit_loop_step)
  next
    case False
    then show ?thesis using admit_loop_grows [of s] by auto
  qed
  then show ?thesis
    using False by (subst dispatch_loop.simps) (auto simp: Let_def)
qed

lemma run_invariant:
  assumes "run evs s = Some s'" and "P s"
    and "\<And>e s s'. P s \<Longrightarrow> step e s = Some s' \<Longrightarrow> P s'"
  shows "P s'"
  using assms(1,2)
proof (induction evs arbitrary: s)
  case Nil
  then show ?case by simp
next
  case (Cons e evs)
  then obtain s1 where s1: "step e s = Some s1" and r: "run evs s1 = Some s'"
    by (auto split: option.splits)
  have "P s1" using Cons.prems(2) s1 by (rule assms(3))
  then show ?case using r Cons.IH by blast
qed

lemma run_append:
  "run (es @ es') s = (case run es s of None \<Rightarrow> None | Some s1 \<Rightarrow> run es' s1)"
  by (induction es arbitrary: s) (auto split: option.splits)

lemma find_pid_Some:
  "find (\<lambda>t. pid t = p) xs = Some t \<Longrightarrow> t \<in> set xs \<and> pid t = p"
  by (induction xs) (auto split: if_splits)

lemma step_cases [consumes 1, case_names Settle Finally Return Await Abort]:
  assumes "step e s = Some s'"
  obtains
    (Settle) p out t where "e = Settle p out" and "find (\<lambda>t. pid t = p) (active s) = Some t"
      and "settled t = InFlight"
      and "s' = s\<lparr>sys := snd (processJob_resume (jobId t) out (sys s)),
               active := map (\<lambda>t'. if pid t' = p then t'\<lparr>settled := Fulfilled\<rparr> else t')
                           (active s)\<rparr>"
  | (Finally) p t where "e = Finally p" and "find (\<lambda>t. pid t = p) (active s) = Some t"
      and "settled t \<noteq> InFlight"
      and "s' = s\<lparr>active := filter (\<lambda>t'. pid t' \<noteq> p) (active s),
               race := (if phase s = Awaiting \<and> race s = InFlight then settled t else race s)\<rparr>"
  | (Return) "e = Resume" and "phase s = Awaiting" and "race s = Fulfilled"
      and "queue s = []" and "active s = []" and "s' = s\<lparr>phase := Returned\<rparr>"
  | (Await) "e = Resume" and "phase s = Awaiting" and "race s = Fulfilled"
      and "active (admit_loop (s\<lparr>phase := Running\<rparr>)) \<noteq> []"
      and "s' = (admit_loop (s\<lparr>phase := Running\<rparr>))\<lparr>phase := Awaiting, race := InFlight\<rparr>"
  | (Abort) err where "e = Resume" and "phase s = Awaiting" and "race s = Rejected err"
      and "s' = s\<lparr>phase := Threw err\<rparr>"
proof (cases e)
  case (Settle p out)
  then obtain t where t: "find (\<lambda>t. pid t = p) (active s) = Some t" "settled t = InFlight"
    using assms by (auto split: option.splits if_splits)
  obtain r w where rw: "processJob_resume (jobId t) out (sys s) = (r, w)"
    by (cases "processJob_resume (jobId t) out (sys s)")
  have r: "r = Fulfilled"
    using fst_processJob_resume [of "jobId t" out "sys s"] rw by simp
  show ?thesis
    using that(1) [OF Settle t] assms Settle t rw r by simp
next
  case (Finally p)
  then show ?thesis
    using assms that(2) [OF Finally] by (auto split: option.splits if_splits)
next
  case Resume
  then have ph: "phase s = Awaiting"
    using assms by (auto split: if_splits)
  show ?thesis
  proof (cases "race s")
    case InFlight
    then show ?thesis using assms Resume ph by simp
  next
    case Fulfilled
    then have "dispatch_loop (s\<lparr>phase := Running\<rparr>) = Some s'"
      using assms Resume ph by simp
    from dispatch_loop_Some [OF this] show ?thesis
    proof
      assume a: "queue (s\<lparr>phase := Running\<rparr>) = [] \<and> active (s\<lparr>phase := Running\<rparr>) = []
          \<and> s' = s\<lparr>phase := Running\<rparr>\<lparr>phase := Returned\<rparr>"
      show ?thesis
        using that(3) [OF Resume ph Fulfilled] a by simp
    next
      assume a: "active (admit_loop (s\<lparr>phase := Running\<rparr>)) \<noteq> []
          \<and> s' = (admit_loop (s\<lparr>phase := Running\<rparr>))\<lparr>phase := Awaiting, race := InFlight\<rparr>"
      show ?thesis
        using that(4) [OF Resume ph Fulfilled] a by simp
    qed
  next
    case (Rejected err)
    then show ?thesis
      using assms Resume ph that(5) [OF Resume ph Rejected] by simp
  qed
qed

lemma phase_admit [simp]: "phase (admit s) = phase s"
  by (cases "queue s") (simp_all add: admit_def split: prod.splits)

lemma d_concurrency_admit [simp]: "d_concurrency (admit s) = d_concurrency s"
  by (cases "queue s") (simp_all add: admit_def split: prod.splits)

text \<open>
  An induction rule over the states that a dispatcher passes through, including the
  states inside a synchronous stretch (phase \<open>Running\<close>).
\<close>

lemma dispatcher_induct [consumes 2,
    case_names init admit await return settle fin resume abort]:
  assumes start: "processJobs ids req c w = Some s0"
    and run: "run evs s0 = Some s"
    and r_init: "P \<lparr>sys = w, request = req, d_concurrency = c, queue = ids, active = [],
                 next_pid = 0, phase = Running, race = InFlight\<rparr>"
    and r_admit: "\<And>s i rest. P s \<Longrightarrow> phase s = Running \<Longrightarrow> queue s = i # rest \<Longrightarrow>
                 num_less (Num (of_nat (length (active s)))) (d_concurrency s) \<Longrightarrow> P (admit s)"
    and r_await: "\<And>s. P s \<Longrightarrow> phase s = Running \<Longrightarrow> active s \<noteq> [] \<Longrightarrow>
                 \<not> num_less (Num (of_nat (length (active s)))) (d_concurrency s) \<or> queue s = [] \<Longrightarrow>
                 P (s\<lparr>phase := Awaiting, race := InFlight\<rparr>)"
    and r_return: "\<And>s. P s \<Longrightarrow> phase s = Running \<Longrightarrow> queue s = [] \<Longrightarrow> active s = [] \<Longrightarrow>
                 P (s\<lparr>phase := Returned\<rparr>)"
    and r_settle: "\<And>s p out t. P s \<Longrightarrow> phase s \<noteq> Running \<Longrightarrow>
                 find (\<lambda>t. pid t = p) (active s) = Some t \<Longrightarrow> settled t = InFlight \<Longrightarrow>
                 P (s\<lparr>sys := snd (processJob_resume (jobId t) out (sys s)),
                      active := map (\<lambda>t'. if pid t' = p then t'\<lparr>settled := Fulfilled\<rparr> else t')
                                  (active s)\<rparr>)"
    and r_fin: "\<And>s p t. P s \<Longrightarrow> phase s \<noteq> Running \<Longrightarrow>
                 find (\<lambda>t. pid t = p) (active s) = Some t \<Longrightarrow> settled t \<noteq> InFlight \<Longrightarrow>
                 P (s\<lparr>active := filter (\<lambda>t'. pid t' \<noteq> p) (active s),
                      race := (if phase s = Awaiting \<and> race s = InFlight then settled t
                               else race s)\<rparr>)"
    and r_resume: "\<And>s. P s \<Longrightarrow> phase s = Awaiting \<Longrightarrow> race s = Fulfilled \<Longrightarrow>
                 P (s\<lparr>phase := Running\<rparr>)"
    and r_abort: "\<And>s e. P s \<Longrightarrow> phase s = Awaiting \<Longrightarrow> race s = Rejected e \<Longrightarrow>
                 P (s\<lparr>phase := Threw e\<rparr>)"
  shows "P s \<and> phase s \<noteq> Running"
proof -
  have inner: "P (admit_loop s) \<and> phase (admit_loop s) = Running"
    if "P s \<and> phase s = Running" for s
    using that
  proof (induction rule: admit_loop_induct)
    case (admit s i rest)
    then show ?case using r_admit [of s i rest] by simp
  qed
  have loop: "P s' \<and> phase s' \<noteq> Running"
    if "P s" and "phase s = Running" and "dispatch_loop s = Some s'" for s s'
    using dispatch_loop_Some [OF that(3)]
  proof
    assume "queue s = [] \<and> active s = [] \<and> s' = s\<lparr>phase := Returned\<rparr>"
    then show ?thesis using r_return [OF that(1,2)] by simp
  next
    assume a: "active (admit_loop s) \<noteq> []
        \<and> s' = (admit_loop s)\<lparr>phase := Awaiting, race := InFlight\<rparr>"
    have "P (admit_loop s) \<and> phase (admit_loop s) = Running"
      using that(1,2) by (intro inner) simp
    then show ?thesis
      using a r_await [of "admit_loop s"] admit_loop_done [of s] by auto
  qed
  have first: "P s0 \<and> phase s0 \<noteq> Running"
    using start unfolding processJobs_def by (intro loop [OF r_init]) auto
  have pres: "P s' \<and> phase s' \<noteq> Running"
    if "P s \<and> phase s \<noteq> Running" and "step e s = Some s'" for e s s'
    using that(2)
  proof (cases rule: step_cases)
    case (Settle p out t)
    then show ?thesis using r_settle [of s p t out] that(1) by simp
  next
    case (Finally p t)
    then show ?thesis using r_fin [of s p t] that(1) by simp
  next
    case Return
    have "P (s\<lparr>phase := Running\<rparr>)"
      using r_resume that(1) Return by simp
    then show ?thesis
      using r_return [of "s\<lparr>phase := Running\<rparr>"] Return by simp
  next
    case Await
    have "P (s\<lparr>phase := Running\<rparr>)"
      using r_resume that(1) Await by simp
    then have "P (admit_loop (s\<lparr>phase := Running\<rparr>))
        \<and> phase (admit_loop (s\<lparr>phase := Running\<rparr>)) = Running"
      by (intro inner) simp
    then show ?thesis
      using Await r_await [of "admit_loop (s\<lparr>phase := Running\<rparr>)"]
        admit_loop_done [of "s\<lparr>phase := Running\<rparr>"] by auto
  next
    case (Abort err)
    then show ?thesis using r_abort [of s err] that(1) by simp
  qed
  show ?thesis
    using run first pres by (rule run_invariant)
qed

lemma st_processJob_begin:
  "st (snd (processJob_begin i w)) k =
     (if k = i
      then map_option (\<lambda>_. if geminiClient w \<or> apiKey w then Generating else Error) (st w i)
      else st w k)"
  by (simp add: st_def getJob_processJob_begin option.map_comp comp_def)

lemma st_processJob_resume:
  "st (snd (processJob_resume i out w)) k =
     (if k = i
      then map_option (\<lambda>_. case out of Image _ \<Rightarrow> Complete | Failure _ \<Rightarrow> Error) (st w i)
      else st w k)"
  by (cases out) (simp_all add: st_def getJob_processJob_resume option.map_comp comp_def)

lemma slots_less: "num_less (Num (of_nat n)) c \<Longrightarrow> n < slots c"
proof (cases c)
  case (Num q)
  assume "num_less (Num (of_nat n)) c"
  then have "of_nat n < q" using Num by simp
  then have "of_nat n < (of_int \<lceil>q\<rceil> :: rat)"
    by (rule less_le_trans) (rule le_of_int_ceiling)
  then have "int n < \<lceil>q\<rceil>"
    by (metis of_int_less_iff of_int_of_nat_eq)
  then show ?thesis using Num by simp
next
  case NaN
  assume "num_less (Num (of_nat n)) c"
  then show ?thesis using NaN by simp
qed

lemma slots_of_nat [simp]: "slots (Num (of_nat K)) = K"
  by simp

lemma map_pid_settle:
  "map pid (map (\<lambda>t'. if pid t' = p then t'\<lparr>settled := r\<rparr> else t') xs) = map pid xs"
  by (induction xs) auto

lemma length_settle:
  "length (map (\<lambda>t'. if pid t' = p then t'\<lparr>settled := r\<rparr> else t') xs) = length xs"
  by simp

lemma in_settle:
  "t \<in> set (map (\<lambda>t'. if pid t' = p then t'\<lparr>settled := r\<rparr> else t') xs) \<longleftrightarrow>
     (\<exists>u \<in> set xs. t = (if pid u = p then u\<lparr>settled := r\<rparr> else u))"
  by (simp only: set_map image_iff)

lemma inv_pids_run:
  assumes "processJobs ids req c w = Some s0" and "run evs s0 = Some s"
  shows "inv_pids s \<and> phase s \<noteq> Running"
  using assms
proof (induction rule: dispatcher_induct)
  case init
  show ?case by (simp add: inv_pids_def)
next
  case (admit s i rest)
  then show ?case
    by (auto simp: inv_pids_def admit_Cons less_Suc_eq)
next
  case (settle s p out t)
  then show ?case
    unfolding inv_pids_def by (auto simp: map_pid_settle simp del: map_map)
next
  case (fin s p t)
  then show ?case
    by (simp add: inv_pids_def distinct_map_filter)
qed (simp_all add: inv_pids_def)

lemma cap_run:
  assumes "processJobs ids req c w = Some s0" and "run evs s0 = Some s"
  shows "(d_concurrency s = c \<and> length (active s) \<le> slots c) \<and> phase s \<noteq> Running"
  using assms
proof (induction rule: dispatcher_induct)
  case (admit s i rest)
  then show ?case
    using slots_less [of "length (active s)" c] by (simp add: admit_Cons)
next
  case (fin s p t)
  then show ?case
    by (auto intro: le_trans [OF length_filter_le])
qed simp_all





lemma inv_pids_inj:
  "inv_pids s \<Longrightarrow> u \<in> set (active s) \<Longrightarrow> t \<in> set (active s) \<Longrightarrow> pid u = pid t \<Longrightarrow> u = t"
  by (auto simp: inv_pids_def distinct_map inj_on_def)

lemma gen_run:
  assumes "processJobs ids req c w = Some s0" and "run evs s0 = Some s"
    and "\<forall>j \<in> set ids. st w j \<noteq> Some Generating"
  shows "(inv_pids s \<and> (\<forall>j \<in> set ids. st (sys s) j = Some Generating \<longrightarrow>
            (\<exists>t \<in> set (active s). jobId t = j \<and> settled t = InFlight)))
         \<and> phase s \<noteq> Running"
  using assms(1,2)
proof (induction rule: dispatcher_induct)
  case init
  show ?case using assms(3) by (simp add: inv_pids_def)
next
  case (admit s i rest)
  have pids: "inv_pids (admit s)"
    using admit by (auto simp: inv_pids_def admit_Cons less_Suc_eq)
  have "\<exists>t \<in> set (active (admit s)). jobId t = j \<and> settled t = InFlight"
    if "j \<in> set ids" and "st (sys (admit s)) j = Some Generating" for j
  proof (cases "j = i")
    case True
    then have "fst (processJob_begin i (sys s)) = InFlight"
      using that(2) admit(3)
      by (auto simp: admit_Cons st_processJob_begin fst_processJob_begin split: if_splits)
    then show ?thesis
      using True admit(3) by (simp add: admit_Cons)
  next
    case False
    then have "st (sys s) j = Some Generating"
      using that(2) admit(3) by (simp add: admit_Cons st_processJob_begin)
    then show ?thesis
      using admit(1) that(1) admit(3) by (auto simp: admit_Cons)
  qed
  then show ?case using pids by blast
next
  case (settle s p out t)
  let ?s' = "s\<lparr>sys := snd (processJob_resume (jobId t) out (sys s)),
       active := map (\<lambda>t'. if pid t' = p then t'\<lparr>settled := Fulfilled\<rparr> else t') (active s)\<rparr>"
  have t: "t \<in> set (active s)" "pid t = p"
    using find_pid_Some [OF settle(3)] by auto
  have pids: "inv_pids ?s'"
    using settle(1) unfolding inv_pids_def by (auto simp: map_pid_settle simp del: map_map)
  have "\<exists>u \<in> set (active ?s'). jobId u = j \<and> settled u = InFlight"
    if jin: "j \<in> set ids" and gen: "st (sys ?s') j = Some Generating" for j
  proof -
    have ne: "j \<noteq> jobId t"
      using gen by (cases out) (auto simp: st_processJob_resume)
    then have "st (sys s) j = Some Generating"
      using gen by (simp add: st_processJob_resume)
    then obtain u where u: "u \<in> set (active s)" "jobId u = j" "settled u = InFlight"
      using settle(1) jin by blast
    have "pid u \<noteq> p"
      using u(1,2) ne t inv_pids_inj [of s u t] settle(1) by auto
    then show ?thesis
      using u by (auto simp: in_settle intro!: bexI [of _ u])
  qed
  then show ?case using pids by blast
next
  case (fin s p t)
  have t: "t \<in> set (active s)" "pid t = p"
    using find_pid_Some [OF fin(3)] by auto
  have "\<exists>u \<in> set (filter (\<lambda>t'. pid t' \<noteq> p) (active s)). jobId u = j \<and> settled u = InFlight"
    if jin: "j \<in> set ids" and gen: "st (sys s) j = Some Generating" for j
  proof -
    obtain u where u: "u \<in> set (active s)" "jobId u = j" "settled u = InFlight"
      using fin(1) jin gen by blast
    have "u \<noteq> t" using u(3) fin(4) by auto
    then have "pid u \<noteq> p"
      using fin(1) u(1) t inv_pids_inj [of s u t] by auto
    then show ?thesis using u by auto
  qed
  then show ?case
    using fin(1) by (simp add: inv_pids_def distinct_map_filter)
qed (simp_all add: inv_pids_def)

text \<open>
  C1. With an integer limit \<open>K\<close> and no job of the batch marked \<^verbatim>\<open>generating\<close> before
  the call, every state that a run of \<^verbatim>\<open>processJobs\<close> passes through has at most \<open>K\<close>
  provider calls of the batch unsettled and at most \<open>K\<close> jobs of the batch in status
  \<^verbatim>\<open>generating\<close>, whatever the schedule and the outcomes.
\<close>

theorem C1_concurrency_cap:
  assumes "processJobs ids req (Num (of_nat K)) w = Some s0"
    and "run evs s0 = Some s"
    and "\<forall>j \<in> set ids. st w j \<noteq> Some Generating"
  shows "length (active s) \<le> K \<and> length (in_flight s) \<le> K \<and> card (generating ids s) \<le> K"
proof -
  have cap: "length (active s) \<le> K"
    using cap_run [OF assms(1,2)] by simp
  have fl: "length (in_flight s) \<le> length (active s)"
    by (simp add: in_flight_def)
  have "generating ids s \<subseteq> jobId ` set (in_flight s)"
    using gen_run [OF assms] by (auto simp: generating_def in_flight_def)
  then have "card (generating ids s) \<le> card (jobId ` set (in_flight s))"
    by (intro card_mono) auto
  also have "\<dots> \<le> card (set (in_flight s))"
    by (intro card_image_le) simp
  also have "\<dots> \<le> length (in_flight s)"
    by (rule card_length)
  finally show ?thesis using cap fl by simp
qed

lemma sample_start: "processJobs [''a'', ''b''] sample_request (Num 1) two_jobs \<noteq> None"
  by code_simp

lemma sample_run_ok:
  "run sample_run (the (processJobs [''a'', ''b''] sample_request (Num 1) two_jobs)) \<noteq> None"
  by code_simp

lemma sample_not_generating:
  "st two_jobs ''a'' \<noteq> Some Generating" "st two_jobs ''b'' \<noteq> Some Generating"
  by code_simp+

theorem C1_concurrency_cap_witness:
  "processJobs [''a'', ''b''] sample_request (Num (of_nat 1)) two_jobs \<noteq> None
   \<and> run sample_run (the (processJobs [''a'', ''b''] sample_request (Num 1) two_jobs)) \<noteq> None
   \<and> st two_jobs ''a'' \<noteq> Some Generating \<and> st two_jobs ''b'' \<noteq> Some Generating
   \<and> length (in_flight (the (run sample_run
        (the (processJobs [''a'', ''b''] sample_request (Num 1) two_jobs))))) \<le> 1"
proof -
  have bq: "\<forall>j \<in> set [''a'', ''b'']. st two_jobs j \<noteq> Some Generating"
    using sample_not_generating by simp
  obtain s0 where s0: "processJobs [''a'', ''b''] sample_request (Num 1) two_jobs = Some s0"
    using sample_start by blast
  obtain s where s: "run sample_run s0 = Some s"
    using sample_run_ok unfolding s0 by auto
  have s0': "processJobs [''a'', ''b''] sample_request (Num (of_nat 1)) two_jobs = Some s0"
    using s0 by simp
  have "length (active s) \<le> 1 \<and> length (in_flight s) \<le> 1
      \<and> card (generating [''a'', ''b''] s) \<le> 1"
    using C1_concurrency_cap [OF s0' s bq] .
  then show ?thesis
    using sample_not_generating by (simp add: s0 s)
qed

lemma healthy_run:
  assumes "processJobs ids req c w = Some s0" and "run evs s0 = Some s"
  shows "healthy s \<and> phase s \<noteq> Running"
  using assms
proof (induction rule: dispatcher_induct)
  case (admit s i rest)
  then show ?case
    by (auto simp: healthy_def admit_Cons fst_processJob_begin)
next
  case (settle s p out t)
  then show ?case
    using find_pid_Some [OF settle(3)] by (auto simp: healthy_def)
next
  case (fin s p t)
  have "t \<in> set (active s)"
    using find_pid_Some [OF fin(3)] by simp
  then have "settled t = Fulfilled"
    using fin(1,4) by (auto simp: healthy_def)
  then show ?case
    using fin(1,2) by (auto simp: healthy_def)
qed (auto simp: healthy_def)

lemma accounted_run:
  assumes "processJobs ids req c w = Some s0" and "run evs s0 = Some s"
    and "\<forall>j \<in> set ids. st w j \<noteq> None"
  shows "(inv_pids s \<and> accounted ids s) \<and> phase s \<noteq> Running"
  using assms(1,2)
proof (induction rule: dispatcher_induct)
  case init
  show ?case using assms(3) by (simp add: inv_pids_def accounted_def)
next
  case (admit s i rest)
  have pids: "inv_pids (admit s)"
    using admit by (auto simp: inv_pids_def admit_Cons less_Suc_eq)
  have "st (sys (admit s)) j \<noteq> None
      \<and> (j \<in> set (queue (admit s))
         \<or> (\<exists>t \<in> set (active (admit s)). jobId t = j \<and> settled t = InFlight)
         \<or> terminal (admit s) j)"
    if jin: "j \<in> set ids" for j
  proof (cases "j = i")
    case True
    have "st (sys s) i \<noteq> None"
      using admit(1) jin True by (auto simp: accounted_def)
    then show ?thesis
      using True admit(3)
      by (auto simp: admit_Cons st_processJob_begin fst_processJob_begin terminal_def)
  next
    case False
    have old: "st (sys s) j \<noteq> None
      \<and> (j \<in> set (queue s)
         \<or> (\<exists>t \<in> set (active s). jobId t = j \<and> settled t = InFlight)
         \<or> terminal s j)"
      using admit(1) jin by (auto simp: accounted_def)
    then show ?thesis
      using False admit(3)
      by (auto simp: admit_Cons st_processJob_begin terminal_def)
  qed
  then show ?case using pids by (simp add: accounted_def)
next
  case (settle s p out t)
  let ?s' = "s\<lparr>sys := snd (processJob_resume (jobId t) out (sys s)),
       active := map (\<lambda>t'. if pid t' = p then t'\<lparr>settled := Fulfilled\<rparr> else t') (active s)\<rparr>"
  have t: "t \<in> set (active s)" "pid t = p"
    using find_pid_Some [OF settle(3)] by auto
  have pids: "inv_pids ?s'"
    using settle(1) unfolding inv_pids_def by (auto simp: map_pid_settle simp del: map_map)
  have "st (sys ?s') j \<noteq> None
      \<and> (j \<in> set (queue ?s')
         \<or> (\<exists>u \<in> set (active ?s'). jobId u = j \<and> settled u = InFlight)
         \<or> terminal ?s' j)"
    if jin: "j \<in> set ids" for j
  proof -
    have old: "st (sys s) j \<noteq> None
      \<and> (j \<in> set (queue s)
         \<or> (\<exists>t \<in> set (active s). jobId t = j \<and> settled t = InFlight)
         \<or> terminal s j)"
      using settle(1) jin by (auto simp: accounted_def)
    show ?thesis
    proof (cases "j = jobId t")
      case True
      then show ?thesis
        using old by (cases out) (auto simp: st_processJob_resume terminal_def)
    next
      case False
      have keep: "\<exists>u \<in> set (active ?s'). jobId u = j \<and> settled u = InFlight"
        if "\<exists>u \<in> set (active s). jobId u = j \<and> settled u = InFlight"
      proof -
        obtain u where u: "u \<in> set (active s)" "jobId u = j" "settled u = InFlight"
          using \<open>\<exists>u \<in> set (active s). jobId u = j \<and> settled u = InFlight\<close> by blast
        have "pid u \<noteq> p"
          using u(1,2) False t inv_pids_inj [of s u t] settle(1) by auto
        then show ?thesis
          using u by (auto simp: in_settle intro!: bexI [of _ u])
      qed
      show ?thesis
        using old False keep by (auto simp: st_processJob_resume terminal_def)
    qed
  qed
  then show ?case using pids by (simp add: accounted_def)
next
  case (fin s p t)
  have t: "t \<in> set (active s)" "pid t = p"
    using find_pid_Some [OF fin(3)] by auto
  have keep: "\<exists>u \<in> set (filter (\<lambda>t'. pid t' \<noteq> p) (active s)). jobId u = j \<and> settled u = InFlight"
    if ex: "\<exists>u \<in> set (active s). jobId u = j \<and> settled u = InFlight" for j
  proof -
    obtain u where u: "u \<in> set (active s)" "jobId u = j" "settled u = InFlight"
      using ex by blast
    have "u \<noteq> t" using u(3) fin(4) by auto
    then have "pid u \<noteq> p"
      using fin(1) u(1) t inv_pids_inj [of s u t] by auto
    then show ?thesis using u by auto
  qed
  have "accounted ids (s\<lparr>active := filter (\<lambda>t'. pid t' \<noteq> p) (active s),
       race := (if phase s = Awaiting \<and> race s = InFlight then settled t else race s)\<rparr>)"
    using fin(1) keep unfolding accounted_def terminal_def by simp blast
  then show ?case
    using fin(1) by (simp add: inv_pids_def distinct_map_filter)
qed (simp_all add: inv_pids_def accounted_def terminal_def)

lemma weight_settle:
  assumes "find (\<lambda>t. pid t = p) xs = Some t" and "settled t = InFlight"
  shows "sum_list (map (\<lambda>t. if settled t = InFlight then 3 else (2::nat))
            (map (\<lambda>t'. if pid t' = p then t'\<lparr>settled := Fulfilled\<rparr> else t') xs))
         < sum_list (map (\<lambda>t. if settled t = InFlight then 3 else 2) xs)"
proof -
  have le: "sum_list (map (\<lambda>t. if settled t = InFlight then 3 else (2::nat))
            (map (\<lambda>t'. if pid t' = p then t'\<lparr>settled := Fulfilled\<rparr> else t') ys))
         \<le> sum_list (map (\<lambda>t. if settled t = InFlight then 3 else 2) ys)" for ys
    by (induction ys) auto
  show ?thesis
    using assms
  proof (induction xs)
    case Nil
    then show ?case by simp
  next
    case (Cons x xs)
    show ?case
    proof (cases "pid x = p")
      case True
      then have "x = t" using Cons.prems by simp
      then show ?thesis
        using True Cons.prems(2) le [of xs] by simp
    next
      case False
      then show ?thesis using Cons by simp
    qed
  qed
qed

lemma weight_finally:
  assumes "find (\<lambda>t. pid t = p) xs = Some t"
  shows "sum_list (map (\<lambda>t. if settled t = InFlight then 3 else (2::nat))
            (filter (\<lambda>t'. pid t' \<noteq> p) xs)) + 2
         \<le> sum_list (map (\<lambda>t. if settled t = InFlight then 3 else 2) xs)"
proof -
  have le: "sum_list (map (\<lambda>t. if settled t = InFlight then 3 else (2::nat))
            (filter (\<lambda>t'. pid t' \<noteq> p) ys))
         \<le> sum_list (map (\<lambda>t. if settled t = InFlight then 3 else 2) ys)" for ys
    by (induction ys) auto
  show ?thesis
    using assms
  proof (induction xs)
    case Nil
    then show ?case by simp
  next
    case (Cons x xs)
    show ?case
    proof (cases "pid x = p")
      case True
      then show ?thesis using le [of xs] by simp
    next
      case False
      then show ?thesis using Cons by simp
    qed
  qed
qed

lemma rank_admit_loop:
  assumes "phase s = Running"
  shows "rank (admit_loop s) \<le> rank s \<and> phase (admit_loop s) = Running"
proof -
  have "rank s \<le> rank s \<and> phase s = Running"
    using assms by simp
  then show ?thesis
  proof (induction rule: admit_loop_induct [where P = "\<lambda>x. rank x \<le> rank s \<and> phase x = Running"])
    case (admit x i rest)
    have "rank (admit x) \<le> rank x"
      using admit(1,2) by (simp add: rank_def admit_Cons)
    then show ?case using admit(1) by simp
  qed
qed

lemma step_rank:
  assumes "step e s = Some s'"
  shows "rank s' < rank s"
  using assms
proof (cases rule: step_cases)
  case (Settle p out t)
  then show ?thesis
    using weight_settle [of p "active s" t] by (simp add: rank_def)
next
  case (Finally p t)
  then show ?thesis
    using weight_finally [of p "active s" t] by (simp add: rank_def)
next
  case Return
  then show ?thesis by (simp add: rank_def)
next
  case Await
  have "rank (admit_loop (s\<lparr>phase := Running\<rparr>)) \<le> rank (s\<lparr>phase := Running\<rparr>)
      \<and> phase (admit_loop (s\<lparr>phase := Running\<rparr>)) = Running"
    by (rule rank_admit_loop) simp
  moreover have "rank s' = rank (admit_loop (s\<lparr>phase := Running\<rparr>))"
    using Await(5) calculation by (simp add: rank_def)
  moreover have "rank (s\<lparr>phase := Running\<rparr>) < rank s"
    using Await(2,3) by (simp add: rank_def)
  ultimately show ?thesis by simp
next
  case (Abort err)
  then show ?thesis by (simp add: rank_def)
qed

lemma run_rank: "run evs s = Some s' \<Longrightarrow> length evs + rank s' \<le> rank s"
proof (induction evs arbitrary: s)
  case Nil
  then show ?case by simp
next
  case (Cons e evs)
  then obtain s1 where s1: "step e s = Some s1" and r: "run evs s1 = Some s'"
    by (auto split: option.splits)
  show ?case
    using Cons.IH [OF r] step_rank [OF s1] by simp
qed

lemma rank_start:
  assumes "processJobs ids req c w = Some s0"
  shows "rank s0 \<le> 3 * length ids"
proof -
  let ?i = "\<lparr>sys = w, request = req, d_concurrency = c, queue = ids, active = [],
       next_pid = 0, phase = Running, race = InFlight\<rparr>"
  have d: "dispatch_loop ?i = Some s0"
    using assms by (simp add: processJobs_def)
  have r: "rank (admit_loop ?i) \<le> rank ?i \<and> phase (admit_loop ?i) = Running"
    by (rule rank_admit_loop) simp
  have i: "rank ?i = 3 * length ids"
    by (simp add: rank_def)
  from dispatch_loop_Some [OF d] show ?thesis
  proof
    assume "queue ?i = [] \<and> active ?i = [] \<and> s0 = ?i\<lparr>phase := Returned\<rparr>"
    then show ?thesis by (simp add: rank_def)
  next
    assume "active (admit_loop ?i) \<noteq> []
        \<and> s0 = (admit_loop ?i)\<lparr>phase := Awaiting, race := InFlight\<rparr>"
    then have "rank s0 = rank (admit_loop ?i)"
      using r by (simp add: rank_def)
    then show ?thesis using r i by simp
  qed
qed

lemma processJobs_returns:
  assumes "0 < q"
  shows "processJobs ids req (Num q) w \<noteq> None"
  unfolding processJobs_def
  by (rule dispatch_loop_returns) (simp add: assms)

lemma progress:
  assumes "healthy s" and "phase s \<noteq> Running" and "phase s \<noteq> Returned"
    and "d_concurrency s = Num q" and "0 < q"
  shows "\<exists>e s'. step e s = Some s'"
proof -
  have ph: "phase s = Awaiting"
    using assms(1-3) by (auto simp: healthy_def)
  show ?thesis
  proof (cases "race s = InFlight")
    case True
    then obtain x xs where a: "active s = x # xs"
      using assms(1) ph by (cases "active s") (auto simp: healthy_def)
    show ?thesis
    proof (cases "settled x = InFlight")
      case True
      have "step (Settle (pid x) (Image [])) s \<noteq> None"
        using a True by (simp split: prod.splits)
      then show ?thesis by blast
    next
      case False
      have "step (Finally (pid x)) s \<noteq> None"
        using a False by simp
      then show ?thesis by blast
    qed
  next
    case False
    then have f: "race s = Fulfilled"
      using assms(1) by (auto simp: healthy_def)
    have "dispatch_loop (s\<lparr>phase := Running\<rparr>) \<noteq> None"
      by (rule dispatch_loop_returns) (simp add: assms(4,5))
    then have "step Resume s \<noteq> None"
      using ph f by simp
    then show ?thesis by blast
  qed
qed

lemma d_concurrency_run:
  assumes "processJobs ids req c w = Some s0" and "run evs s0 = Some s"
  shows "d_concurrency s = c"
  using cap_run [OF assms] by simp

text \<open>
  C3. For every list of job identifiers held by the store and every concurrency of at
  least 1: the call of \<^verbatim>\<open>processJobs\<close> reaches its first \<^verbatim>\<open>await\<close> (or returns); every
  run from there takes at most three event-loop jobs per identifier; as long as the
  function has not returned some event can happen (a provider call outstanding, a
  callback or a continuation due), so once every provider call has settled the run ends
  with the function returned; and when it has returned, nothing is queued or active and
  every job of the list has status \<^verbatim>\<open>complete\<close> or \<^verbatim>\<open>error\<close>.
\<close>

theorem C3_processJobs_terminates:
  assumes "1 \<le> q" and "\<forall>j \<in> set ids. st w j \<noteq> None"
  shows "\<exists>s0. processJobs ids req (Num q) w = Some s0
     \<and> (\<forall>evs s. run evs s0 = Some s \<longrightarrow>
          length evs \<le> 3 * length ids
          \<and> (phase s = Returned \<or> (\<exists>e s'. step e s = Some s'))
          \<and> (phase s = Returned \<longrightarrow>
               queue s = [] \<and> active s = [] \<and> (\<forall>j \<in> set ids. terminal s j)))"
proof -
  have "0 < q" using assms(1) by simp
  then obtain s0 where s0: "processJobs ids req (Num q) w = Some s0"
    using processJobs_returns [of q ids req w] by auto
  have "length evs \<le> 3 * length ids
      \<and> (phase s = Returned \<or> (\<exists>e s'. step e s = Some s'))
      \<and> (phase s = Returned \<longrightarrow>
           queue s = [] \<and> active s = [] \<and> (\<forall>j \<in> set ids. terminal s j))"
    if r: "run evs s0 = Some s" for evs s
  proof -
    have len: "length evs \<le> 3 * length ids"
      using run_rank [OF r] rank_start [OF s0] by simp
    have h: "healthy s" "phase s \<noteq> Running"
      using healthy_run [OF s0 r] by auto
    have c: "d_concurrency s = Num q"
      using d_concurrency_run [OF s0 r] .
    have prog: "phase s = Returned \<or> (\<exists>e s'. step e s = Some s')"
      using progress [OF h(1,2) _ c \<open>0 < q\<close>] by blast
    have acc: "accounted ids s"
      using accounted_run [OF s0 r assms(2)] by simp
    have fin: "queue s = [] \<and> active s = [] \<and> (\<forall>j \<in> set ids. terminal s j)"
      if "phase s = Returned"
    proof -
      have e: "queue s = []" "active s = []"
        using h(1) that by (auto simp: healthy_def)
      then show ?thesis
        using acc by (auto simp: accounted_def)
    qed
    show ?thesis using len prog fin by blast
  qed
  then show ?thesis using s0 by blast
qed

lemma sample_held: "st two_jobs ''a'' \<noteq> None" "st two_jobs ''b'' \<noteq> None"
  by code_simp+

lemma sample_exists: "\<forall>j \<in> set [''a'', ''b'']. st two_jobs j \<noteq> None"
  using sample_held by simp

lemma full_run_ok:
  "run full_run (the (processJobs [''a'', ''b''] sample_request (Num 1) two_jobs)) \<noteq> None"
  by code_simp

lemma full_run_returned:
  "phase (the (run full_run (the (processJobs [''a'', ''b''] sample_request (Num 1) two_jobs))))
     = Returned"
  by code_simp

theorem C3_processJobs_terminates_witness:
  "(1::rat) \<le> 1 \<and> st two_jobs ''a'' \<noteq> None \<and> st two_jobs ''b'' \<noteq> None
   \<and> run full_run (the (processJobs [''a'', ''b''] sample_request (Num 1) two_jobs)) \<noteq> None
   \<and> length full_run \<le> 3 * length [''a'', ''b'']
   \<and> terminal (the (run full_run (the (processJobs [''a'', ''b''] sample_request (Num 1) two_jobs))))
        ''b''"
proof -
  have le: "(1::rat) \<le> 1"
    by simp
  obtain s0 where s0: "processJobs [''a'', ''b''] sample_request (Num 1) two_jobs = Some s0"
    and all: "\<forall>evs s. run evs s0 = Some s \<longrightarrow>
          length evs \<le> 3 * length [''a'', ''b'']
          \<and> (phase s = Returned \<or> (\<exists>e s'. step e s = Some s'))
          \<and> (phase s = Returned \<longrightarrow>
               queue s = [] \<and> active s = [] \<and> (\<forall>j \<in> set [''a'', ''b'']. terminal s j))"
    using C3_processJobs_terminates [OF le sample_exists, of sample_request] by blast
  obtain s where s: "run full_run s0 = Some s"
    using full_run_ok unfolding s0 by auto
  have ph: "phase s = Returned"
    using full_run_returned unfolding s0 by (simp add: s)
  have "length full_run \<le> 3 * length [''a'', ''b''] \<and> (\<forall>j \<in> set [''a'', ''b'']. terminal s j)"
    using all s ph by blast
  then show ?thesis
    using sample_held by (simp add: s0 s)
qed

lemma find_pid_unique:
  assumes "inv_pids s" and "t \<in> set (active s)"
  shows "find (\<lambda>u. pid u = pid t) (active s) = Some t"
proof (cases "find (\<lambda>u. pid u = pid t) (active s)")
  case None
  then show ?thesis using assms(2) by (auto simp: find_None_iff)
next
  case (Some u)
  then have "u \<in> set (active s)" "pid u = pid t"
    using find_pid_Some [OF Some] by auto
  then show ?thesis
    using Some inv_pids_inj [OF assms(1) _ assms(2)] by auto
qed

lemma trace_processJob_begin:
  "trace (snd (processJob_begin i w)) =
     trace w @
       (if geminiClient w \<or> apiKey w
        then [(i, no_update\<lparr>u_status := Some Generating\<rparr>)]
        else [(i, no_update\<lparr>u_status := Some Generating\<rparr>),
              (i, no_update\<lparr>u_status := Some Error,
                    u_error := Some (Some ''GEMINI_API_KEY environment variable is required'')\<rparr>)])"
  by (simp add: processJob_begin_def processJob_catch_def getGeminiClient_def
      jobManager_updateJob_def Let_def error_message_def)

lemma trace_processJob_resume:
  "trace (snd (processJob_resume i out w)) =
     trace w @
       [(i, case out of
              Image url \<Rightarrow> no_update\<lparr>u_status := Some Complete, u_imageUrl := Some (Some url)\<rparr>
            | Failure e \<Rightarrow>
                no_update\<lparr>u_status := Some Error, u_error := Some (Some (error_message e))\<rparr>)]"
  by (cases out)
    (simp_all add: processJob_resume_def processJob_catch_def jobManager_updateJob_def)

lemma order_run:
  assumes "processJobs ids req c w = Some s0" and "run evs s0 = Some s"
  shows "(\<exists>tr. trace (sys s) = trace w @ tr
            \<and> map fst (filter (\<lambda>c. u_status (snd c) = Some Generating) tr) @ queue s = ids)
         \<and> phase s \<noteq> Running"
  using assms
proof (induction rule: dispatcher_induct)
  case init
  show ?case by simp
next
  case (admit s i rest)
  then obtain tr where tr: "trace (sys s) = trace w @ tr"
      "map fst (filter (\<lambda>c. u_status (snd c) = Some Generating) tr) @ queue s = ids"
    by blast
  show ?case
  proof (cases "geminiClient (sys s) \<or> apiKey (sys s)")
    case True
    then show ?thesis
      using tr admit(3)
      by (intro exI [of _ "tr @ [(i, no_update\<lparr>u_status := Some Generating\<rparr>)]"])
        (auto simp: admit_Cons trace_processJob_begin no_update_def)
  next
    case False
    then show ?thesis
      using tr admit(3)
      by (intro exI [of _ "tr @ [(i, no_update\<lparr>u_status := Some Generating\<rparr>),
              (i, no_update\<lparr>u_status := Some Error,
                    u_error := Some (Some ''GEMINI_API_KEY environment variable is required'')\<rparr>)]"])
        (auto simp: admit_Cons trace_processJob_begin no_update_def)
  qed
next
  case (settle s p out t)
  then obtain tr where tr: "trace (sys s) = trace w @ tr"
      "map fst (filter (\<lambda>c. u_status (snd c) = Some Generating) tr) @ queue s = ids"
    by blast
  let ?c = "(jobId t, case out of
              Image url \<Rightarrow> no_update\<lparr>u_status := Some Complete, u_imageUrl := Some (Some url)\<rparr>
            | Failure e \<Rightarrow>
                no_update\<lparr>u_status := Some Error, u_error := Some (Some (error_message e))\<rparr>)"
  have ng: "u_status (snd ?c) \<noteq> Some Generating"
    by (cases out) (simp_all add: no_update_def)
  have "trace (snd (processJob_resume (jobId t) out (sys s))) = trace w @ (tr @ [?c])"
    using tr(1) by (simp add: trace_processJob_resume)
  moreover have "map fst (filter (\<lambda>c. u_status (snd c) = Some Generating) (tr @ [?c])) @ queue s
      = ids"
    using tr(2) ng by simp
  ultimately show ?case
    by (intro exI [of _ "tr @ [?c]"]) simp
qed simp_all

lemma alternating_snoc:
  assumes "alternating ids tr" and "length tr < 2 * length ids"
    and "fst c = ids ! (length tr div 2)"
    and "if even (length tr) then u_status (snd c) = Some Generating
         else u_status (snd c) = Some Complete \<or> u_status (snd c) = Some Error"
  shows "alternating ids (tr @ [c])"
  unfolding alternating_def
proof (intro conjI allI impI)
  show "length (tr @ [c]) \<le> 2 * length ids"
    using assms(2) by simp
next
  fix k assume "k < length (tr @ [c])"
  then consider "k < length tr" | "k = length tr"
    by fastforce
  then show "fst ((tr @ [c]) ! k) = ids ! (k div 2)"
  proof cases
    case 1
    then show ?thesis using assms(1) by (simp add: alternating_def nth_append)
  next
    case 2
    then show ?thesis using assms(3) by simp
  qed
next
  fix k assume "k < length (tr @ [c])"
  then consider "k < length tr" | "k = length tr"
    by fastforce
  then show "if even k then u_status (snd ((tr @ [c]) ! k)) = Some Generating
        else u_status (snd ((tr @ [c]) ! k)) = Some Complete
           \<or> u_status (snd ((tr @ [c]) ! k)) = Some Error"
  proof cases
    case 1
    then show ?thesis using assms(1) by (simp add: alternating_def nth_append)
  next
    case 2
    then show ?thesis using assms(4) by simp
  qed
qed

lemma single_active: "length xs \<le> 1 \<Longrightarrow> t \<in> set xs \<Longrightarrow> xs = [t]"
  by (cases xs) auto

lemma seq_run:
  assumes "processJobs ids req (Num 1) w = Some s0" and "run evs s0 = Some s"
  shows "seq_inv ids w s \<and> phase s \<noteq> Running"
  using assms
proof (induction rule: dispatcher_induct)
  case init
  show ?case
    unfolding seq_inv_def
    by (intro exI [of _ "[]"] exI [of _ 0]) (simp add: alternating_def in_flight_def)
next
  case (admit s i rest)
  then obtain tr a where tr: "trace (sys s) = trace w @ tr" "alternating ids tr"
      and c: "d_concurrency s = Num 1" and la: "length (active s) \<le> 1"
      and a: "a \<le> length ids" "queue s = drop a ids"
      and sh: "if in_flight s = [] then length tr = 2 * a
            else Suc (length tr) = 2 * a \<and> (\<forall>t \<in> set (active s). jobId t = ids ! (a - 1))"
    unfolding seq_inv_def by blast
  have empty: "active s = []"
    using admit(4) c by simp
  then have len: "length tr = 2 * a"
    using sh by (simp add: in_flight_def)
  have alt: "a < length ids"
    using a admit(3) by (cases "a < length ids") auto
  have "i # rest = ids ! a # drop (Suc a) ids"
    using a(2) admit(3) Cons_nth_drop_Suc [OF alt] by simp
  then have i: "i = ids ! a" and rest: "rest = drop (Suc a) ids"
    by simp_all
  let ?g = "(i, no_update\<lparr>u_status := Some Generating\<rparr>)"
  let ?e = "(i, no_update\<lparr>u_status := Some Error,
      u_error := Some (Some ''GEMINI_API_KEY environment variable is required'')\<rparr>)"
  have alt1: "alternating ids (tr @ [?g])"
    using len alt i by (intro alternating_snoc [OF tr(2)]) (simp_all add: no_update_def)
  have alt2: "alternating ids ((tr @ [?g]) @ [?e])"
    using len alt i by (intro alternating_snoc [OF alt1]) (simp_all add: no_update_def)
  show ?case
  proof (cases "geminiClient (sys s) \<or> apiKey (sys s)")
    case True
    show ?thesis
      unfolding seq_inv_def
      using True tr(1) alt1 c alt rest len i empty admit(3)
      by (intro exI [of _ "tr @ [?g]"] exI [of _ "Suc a"])
        (simp add: admit_Cons trace_processJob_begin fst_processJob_begin in_flight_def)
  next
    case False
    show ?thesis
      unfolding seq_inv_def
      using False tr(1) alt2 c alt rest len i empty admit(3)
      by (intro exI [of _ "(tr @ [?g]) @ [?e]"] exI [of _ "Suc a"])
        (simp add: admit_Cons trace_processJob_begin fst_processJob_begin in_flight_def)
  qed
next
  case (settle s p out t)
  then obtain tr a where tr: "trace (sys s) = trace w @ tr" "alternating ids tr"
      and c: "d_concurrency s = Num 1" and la: "length (active s) \<le> 1"
      and a: "a \<le> length ids" "queue s = drop a ids"
      and sh: "if in_flight s = [] then length tr = 2 * a
            else Suc (length tr) = 2 * a \<and> (\<forall>t \<in> set (active s). jobId t = ids ! (a - 1))"
    unfolding seq_inv_def by blast
  have t: "t \<in> set (active s)" "pid t = p"
    using find_pid_Some [OF settle(3)] by auto
  have one: "active s = [t]"
    using la t(1) by (rule single_active)
  have fl: "in_flight s \<noteq> []"
    using one settle(4) by (simp add: in_flight_def)
  then have len: "Suc (length tr) = 2 * a" and job: "jobId t = ids ! (a - 1)"
    using sh t(1) by auto
  let ?c = "(jobId t, case out of
              Image url \<Rightarrow> no_update\<lparr>u_status := Some Complete, u_imageUrl := Some (Some url)\<rparr>
            | Failure e \<Rightarrow>
                no_update\<lparr>u_status := Some Error, u_error := Some (Some (error_message e))\<rparr>)"
  have tm: "u_status (snd ?c) = Some Complete \<or> u_status (snd ?c) = Some Error"
    by (cases out) (simp_all add: no_update_def)
  have odd: "odd (length tr)" and half: "length tr div 2 = a - 1"
    using len by presburger+
  have alt: "alternating ids (tr @ [?c])"
    using len a(1) job odd half tm by (intro alternating_snoc [OF tr(2)]) auto
  show ?case
    unfolding seq_inv_def
    using tr(1) alt c a one t(2) len
    by (intro exI [of _ "tr @ [?c]"] exI [of _ a])
      (simp add: trace_processJob_resume in_flight_def)
next
  case (fin s p t)
  then obtain tr a where tr: "trace (sys s) = trace w @ tr" "alternating ids tr"
      and c: "d_concurrency s = Num 1" and la: "length (active s) \<le> 1"
      and a: "a \<le> length ids" "queue s = drop a ids"
      and sh: "if in_flight s = [] then length tr = 2 * a
            else Suc (length tr) = 2 * a \<and> (\<forall>t \<in> set (active s). jobId t = ids ! (a - 1))"
    unfolding seq_inv_def by blast
  have t: "t \<in> set (active s)" "pid t = p"
    using find_pid_Some [OF fin(3)] by auto
  have one: "active s = [t]"
    using la t(1) by (rule single_active)
  have len: "length tr = 2 * a"
    using sh one fin(4) by (simp add: in_flight_def)
  show ?case
    unfolding seq_inv_def
    using tr c a one t(2) len
    by (intro exI [of _ tr] exI [of _ a]) (simp add: in_flight_def)
qed (auto simp: seq_inv_def in_flight_def)

text \<open>
  C9. In every state of a run, the jobs marked \<^verbatim>\<open>generating\<close> so far, in the order of
  the marks, followed by the jobs still queued, are the list \<^verbatim>\<open>jobIds\<close>: admission
  follows the list. With concurrency 1 the calls of \<^verbatim>\<open>updateJob\<close> come in pairs, job by
  job: the mark of a job directly follows the terminal write of the job before it. Any
  unsettled task, not only the oldest, can be the next to settle.
\<close>

theorem C9_admission_order:
  assumes "processJobs ids req c w = Some s0" and "run evs s0 = Some s"
  shows "admissions w s @ queue s = ids
     \<and> (c = Num 1 \<longrightarrow> alternating ids (calls_since w s))
     \<and> (\<forall>t \<in> set (active s). settled t = InFlight \<longrightarrow>
          (\<forall>out. step (Settle (pid t) out) s \<noteq> None))"
proof -
  obtain tr where tr: "trace (sys s) = trace w @ tr"
      "map fst (filter (\<lambda>c. u_status (snd c) = Some Generating) tr) @ queue s = ids"
    using order_run [OF assms] by blast
  have cs: "calls_since w s = tr"
    by (simp add: calls_since_def tr(1))
  have first: "admissions w s @ queue s = ids"
    using tr(2) by (simp add: admissions_def cs)
  have second: "alternating ids (calls_since w s)" if c1: "c = Num 1"
  proof -
    have "seq_inv ids w s"
      using seq_run [of ids req w s0 evs s] assms c1 by simp
    then obtain tr' where "trace (sys s) = trace w @ tr'" "alternating ids tr'"
      unfolding seq_inv_def by blast
    then show ?thesis
      by (simp add: calls_since_def)
  qed
  have pids: "inv_pids s"
    using inv_pids_run [OF assms] by simp
  have third: "step (Settle (pid t) out) s \<noteq> None"
    if "t \<in> set (active s)" and "settled t = InFlight" for t out
    using find_pid_unique [OF pids that(1)] that(2) by (simp add: split_beta)
  show ?thesis
    using first second third by blast
qed

lemma full_run_queue:
  "queue (the (run full_run (the (processJobs [''a'', ''b''] sample_request (Num 1) two_jobs))))
     = []"
  by code_simp

theorem C9_admission_order_witness:
  "processJobs [''a'', ''b''] sample_request (Num 1) two_jobs \<noteq> None
   \<and> run full_run (the (processJobs [''a'', ''b''] sample_request (Num 1) two_jobs)) \<noteq> None
   \<and> admissions two_jobs
        (the (run full_run (the (processJobs [''a'', ''b''] sample_request (Num 1) two_jobs))))
      = [''a'', ''b'']
   \<and> length (calls_since two_jobs
        (the (run full_run (the (processJobs [''a'', ''b''] sample_request (Num 1) two_jobs)))))
      \<le> 4"
proof -
  obtain s0 where s0: "processJobs [''a'', ''b''] sample_request (Num 1) two_jobs = Some s0"
    using sample_start by blast
  obtain s where s: "run full_run s0 = Some s"
    using full_run_ok unfolding s0 by auto
  have q: "queue s = []"
    using full_run_queue unfolding s0 by (simp add: s)
  have "admissions two_jobs s @ queue s = [''a'', ''b'']
     \<and> (Num 1 = Num 1 \<longrightarrow> alternating [''a'', ''b''] (calls_since two_jobs s))"
    using C9_admission_order [OF s0 s] by blast
  then have "admissions two_jobs s = [''a'', ''b'']
     \<and> length (calls_since two_jobs s) \<le> 4"
    using q by (simp add: alternating_def)
  then show ?thesis
    by (simp add: s0 s)
qed

lemma map_jobId_settle:
  "map jobId (map (\<lambda>t'. if pid t' = p then t'\<lparr>settled := r\<rparr> else t') xs) = map jobId xs"
  by (induction xs) auto

lemma write_once_run:
  assumes "processJobs ids req c w = Some s0" and "run evs s0 = Some s"
    and "distinct ids"
    and "\<forall>j \<in> set ids. st w j \<noteq> Some Complete \<and> st w j \<noteq> Some Error"
  shows "write_once s \<and> phase s \<noteq> Running"
  using assms(1,2)
proof (induction rule: dispatcher_induct)
  case init
  show ?case using assms(3,4) by (simp add: write_once_def terminal_def)
next
  case (admit s i rest)
  have d: "distinct (queue s @ map jobId (active s))"
    and q: "\<forall>j \<in> set (queue s). \<not> terminal s j"
    and f: "\<forall>t \<in> set (active s). settled t = InFlight \<longrightarrow> \<not> terminal s (jobId t)"
    using admit(1) by (auto simp: write_once_def)
  have ni: "i \<notin> set rest" "i \<notin> jobId ` set (active s)"
    using d admit(3) by auto
  have d': "distinct (queue (admit s) @ map jobId (active (admit s)))"
    using d admit(3) by (auto simp: admit_Cons)
  have q': "\<not> terminal (admit s) j" if "j \<in> set (queue (admit s))" for j
  proof -
    have "j \<in> set rest" using that admit(3) by (simp add: admit_Cons)
    then have "j \<noteq> i" "\<not> terminal s j"
      using ni(1) q admit(3) by auto
    then show ?thesis
      using admit(3) by (simp add: terminal_def admit_Cons st_processJob_begin)
  qed
  have f': "\<not> terminal (admit s) (jobId t)"
    if "t \<in> set (active (admit s))" and "settled t = InFlight" for t
  proof (cases "t \<in> set (active s)")
    case True
    then have "jobId t \<noteq> i" "\<not> terminal s (jobId t)"
      using ni(2) f that(2) by auto
    then show ?thesis
      using admit(3) by (simp add: terminal_def admit_Cons st_processJob_begin)
  next
    case False
    then have t: "jobId t = i" "fst (processJob_begin i (sys s)) = InFlight"
      using that admit(3) by (auto simp: admit_Cons)
    have "\<not> terminal s i"
      using q admit(3) by simp
    then show ?thesis
      using t admit(3)
      by (auto simp: terminal_def admit_Cons st_processJob_begin fst_processJob_begin
          split: if_splits)
  qed
  show ?case
    using d' q' f' unfolding write_once_def by blast
next
  case (settle s p out t)
  let ?s' = "s\<lparr>sys := snd (processJob_resume (jobId t) out (sys s)),
       active := map (\<lambda>t'. if pid t' = p then t'\<lparr>settled := Fulfilled\<rparr> else t') (active s)\<rparr>"
  have d: "distinct (queue s @ map jobId (active s))"
    and q: "\<forall>j \<in> set (queue s). \<not> terminal s j"
    and f: "\<forall>t \<in> set (active s). settled t = InFlight \<longrightarrow> \<not> terminal s (jobId t)"
    using settle(1) by (auto simp: write_once_def)
  have t: "t \<in> set (active s)" "pid t = p"
    using find_pid_Some [OF settle(3)] by auto
  have a': "map jobId (active ?s') = map jobId (active s)"
    using map_jobId_settle [of p Fulfilled "active s"] by simp
  have d': "distinct (queue ?s' @ map jobId (active ?s'))"
    unfolding a' using d by simp
  have q': "\<not> terminal ?s' j" if "j \<in> set (queue ?s')" for j
  proof -
    have "j \<noteq> jobId t" using that d t(1) by auto
    then show ?thesis
      using q that by (simp add: terminal_def st_processJob_resume)
  qed
  have f': "\<not> terminal ?s' (jobId u)"
    if u: "u \<in> set (active ?s')" "settled u = InFlight" for u
  proof -
    have "u \<in> set (map (\<lambda>t'. if pid t' = p then t'\<lparr>settled := Fulfilled\<rparr> else t') (active s))"
      using u(1) by simp
    then obtain v where v: "v \<in> set (active s)"
        "u = (if pid v = p then v\<lparr>settled := Fulfilled\<rparr> else v)"
      unfolding in_settle by blast
    have "pid v \<noteq> p"
      using v(2) u(2) by (cases "pid v = p") auto
    then have old: "u \<in> set (active s)" "pid u \<noteq> p"
      using v by simp_all
    then have "u \<noteq> t" using t(2) by auto
    then have "jobId u \<noteq> jobId t"
      using d old(1) t(1) by (auto simp: distinct_map inj_on_def)
    then show ?thesis
      using f old(1) u(2) by (simp add: terminal_def st_processJob_resume)
  qed
  show ?case
    using d' q' f' unfolding write_once_def by blast
next
  case (fin s p t)
  have d: "distinct (queue s @ map jobId (active s))"
    using fin(1) by (auto simp: write_once_def)
  have "distinct (queue s @ map jobId (filter (\<lambda>t'. pid t' \<noteq> p) (active s)))"
    using d by (auto simp: distinct_map_filter)
  then show ?case
    using fin(1) by (auto simp: write_once_def terminal_def)
qed (auto simp: write_once_def terminal_def)

lemma admit_loop_keeps:
  assumes "j \<notin> set (queue s)"
  shows "getJob (manager (sys (admit_loop s))) j = getJob (manager (sys s)) j"
proof -
  have "j \<notin> set (queue s) \<and> getJob (manager (sys s)) j = getJob (manager (sys s)) j"
    using assms by simp
  then have "j \<notin> set (queue (admit_loop s))
      \<and> getJob (manager (sys (admit_loop s))) j = getJob (manager (sys s)) j"
  proof (induction rule: admit_loop_induct
      [where P = "\<lambda>x. j \<notin> set (queue x) \<and> getJob (manager (sys x)) j = getJob (manager (sys s)) j"])
    case (admit x i rest)
    then show ?case
      by (auto simp: admit_Cons getJob_processJob_begin)
  qed
  then show ?thesis by simp
qed

lemma step_keeps_terminal:
  assumes "step e s = Some s'" and "write_once s" and "terminal s j"
  shows "getJob (manager (sys s')) j = getJob (manager (sys s)) j"
  using assms(1)
proof (cases rule: step_cases)
  case (Settle p out t)
  have "t \<in> set (active s)"
    using find_pid_Some [OF Settle(2)] by simp
  then have "\<not> terminal s (jobId t)"
    using assms(2) Settle(3) by (auto simp: write_once_def)
  then have "j \<noteq> jobId t"
    using assms(3) by auto
  then show ?thesis
    using Settle(4) by (simp add: getJob_processJob_resume)
next
  case Await
  have "j \<notin> set (queue (s\<lparr>phase := Running\<rparr>))"
    using assms(2,3) by (auto simp: write_once_def)
  then show ?thesis
    using Await(5) admit_loop_keeps [of j "s\<lparr>phase := Running\<rparr>"] by simp
qed simp_all

lemma terminal_cong:
  "getJob (manager (sys s')) j = getJob (manager (sys s)) j \<Longrightarrow> terminal s' j = terminal s j"
  by (simp add: terminal_def st_def)

text \<open>
  C2, amended. When \<^verbatim>\<open>processJobs\<close> runs over distinct job identifiers none of which is
  \<^verbatim>\<open>complete\<close> or \<^verbatim>\<open>error\<close> at the call, then from any state of the run in which a job
  (of the batch or not) is \<^verbatim>\<open>complete\<close> or \<^verbatim>\<open>error\<close>, every later state of the run holds
  that job exactly as it was: the dispatcher never writes to a terminal job.
\<close>

theorem C2_dispatcher_finality:
  assumes "distinct ids"
    and "\<forall>j \<in> set ids. st w j \<noteq> Some Complete \<and> st w j \<noteq> Some Error"
    and "processJobs ids req c w = Some s0"
    and "run evs s0 = Some s" and "terminal s j" and "run evs' s = Some s'"
  shows "getJob (manager (sys s')) j = getJob (manager (sys s)) j"
  using assms(4,5,6)
proof (induction evs' arbitrary: evs s)
  case Nil
  then show ?case by simp
next
  case (Cons e rest)
  obtain s1 where s1: "step e s = Some s1" and r: "run rest s1 = Some s'"
    using Cons.prems(3) by (auto split: option.splits)
  have wo: "write_once s"
    using write_once_run [OF assms(3) Cons.prems(1) assms(1,2)] by simp
  have keep: "getJob (manager (sys s1)) j = getJob (manager (sys s)) j"
    using step_keeps_terminal [OF s1 wo Cons.prems(2)] .
  have t1: "terminal s1 j"
    using terminal_cong [OF keep] Cons.prems(2) by simp
  have r1: "run (evs @ [e]) s0 = Some s1"
    using Cons.prems(1) s1 by (simp add: run_append)
  show ?case
    using Cons.IH [OF r1 t1 r] keep by simp
qed

lemma sample_not_terminal:
  "st two_jobs ''a'' \<noteq> Some Complete" "st two_jobs ''a'' \<noteq> Some Error"
  "st two_jobs ''b'' \<noteq> Some Complete" "st two_jobs ''b'' \<noteq> Some Error"
  by code_simp+

lemma first_half_ok:
  "run first_half (the (processJobs [''a'', ''b''] sample_request (Num 1) two_jobs)) \<noteq> None"
  by code_simp

lemma first_half_terminal:
  "terminal (the (run first_half
      (the (processJobs [''a'', ''b''] sample_request (Num 1) two_jobs)))) ''a''"
  by code_simp

lemma second_half_ok:
  "run second_half (the (run first_half
      (the (processJobs [''a'', ''b''] sample_request (Num 1) two_jobs)))) \<noteq> None"
  by code_simp

theorem C2_dispatcher_finality_witness:
  "distinct [''a'', ''b'']
   \<and> st two_jobs ''a'' \<noteq> Some Complete \<and> st two_jobs ''a'' \<noteq> Some Error
   \<and> st two_jobs ''b'' \<noteq> Some Complete \<and> st two_jobs ''b'' \<noteq> Some Error
   \<and> processJobs [''a'', ''b''] sample_request (Num 1) two_jobs \<noteq> None
   \<and> run first_half (the (processJobs [''a'', ''b''] sample_request (Num 1) two_jobs)) \<noteq> None
   \<and> terminal (the (run first_half
         (the (processJobs [''a'', ''b''] sample_request (Num 1) two_jobs)))) ''a''
   \<and> run second_half (the (run first_half
         (the (processJobs [''a'', ''b''] sample_request (Num 1) two_jobs)))) \<noteq> None
   \<and> getJob (manager (sys (the (run second_half (the (run first_half
         (the (processJobs [''a'', ''b''] sample_request (Num 1) two_jobs)))))))) ''a''
     = getJob (manager (sys (the (run first_half
         (the (processJobs [''a'', ''b''] sample_request (Num 1) two_jobs)))))) ''a''"
proof -
  have d: "distinct [''a'', ''b'']"
    by simp
  have nt: "\<forall>j \<in> set [''a'', ''b'']. st two_jobs j \<noteq> Some Complete \<and> st two_jobs j \<noteq> Some Error"
    using sample_not_terminal by simp
  obtain s0 where s0: "processJobs [''a'', ''b''] sample_request (Num 1) two_jobs = Some s0"
    using sample_start by blast
  obtain s where s: "run first_half s0 = Some s"
    using first_half_ok unfolding s0 by auto
  have t: "terminal s ''a''"
    using first_half_terminal unfolding s0 by (simp add: s)
  obtain s' where s': "run second_half s = Some s'"
    using second_half_ok unfolding s0 by (auto simp: s)
  have "getJob (manager (sys s')) ''a'' = getJob (manager (sys s)) ''a''"
    using C2_dispatcher_finality [OF d nt s0 s t s'] .
  then show ?thesis
    using d sample_not_terminal t by (simp add: s0 s s')
qed

section \<open>Failure isolation\<close>


lemma processJob_begin_others:
  "k \<noteq> i \<Longrightarrow> getJob (manager (snd (processJob_begin i w))) k = getJob (manager w) k"
  by (simp add: getJob_processJob_begin)















end
